theory Spec2Isabelle
  imports Complex_Main "HOL-Library.Log_Nat" "HOL-Library.Multiset"
begin

text \<open>
  The tiled inference pipeline of \<^verbatim>\<open>app.js\<close>: the normalization ranges of a
  scan, the extraction of the 4 by 4 grid of 256 by 256 tiles, the assembly of the
  reconstruction from the 16 outputs of the backend, the difference buffer, and the
  percentile threshold of the highlighting. The file holds three front ends; where
  their versions of a function differ, each is modelled.
\<close>

section \<open>JavaScript numbers\<close>

text \<open>
  Every number of \<^verbatim>\<open>app.js\<close> is an IEEE-754 binary64 value. A finite one is
  represented by the real number it denotes; the two infinities and NaN are constructors
  of their own. The sign of zero is not represented: the program never divides by a
  value that can be a zero (its only divisors are the literals \<^verbatim>\<open>16498.2578125\<close>
  and \<^verbatim>\<open>100\<close>), and \<^verbatim>\<open>-0 === 0\<close>. Reading an array out of range yields
  \<^verbatim>\<open>undefined\<close>, which every consumer in this program (arithmetic,
  \<^verbatim>\<open>isFinite\<close>, \<^verbatim>\<open>isNaN\<close>, comparison, a store into a
  \<^verbatim>\<open>Float32Array\<close>) treats exactly as NaN, so such a read is modelled as NaN.
\<close>

datatype jsnum = Fin real | PInf | NInf | NaN

fun isFinite :: "jsnum \<Rightarrow> bool" where
  "isFinite (Fin x) = True"
| "isFinite PInf = False"
| "isFinite NInf = False"
| "isFinite NaN = False"

fun isNaN :: "jsnum \<Rightarrow> bool" where
  "isNaN NaN = True"
| "isNaN (Fin x) = False"
| "isNaN PInf = False"
| "isNaN NInf = False"

fun num_val :: "jsnum \<Rightarrow> real" where
  "num_val (Fin x) = x"
| "num_val PInf = 0"
| "num_val NInf = 0"
| "num_val NaN = 0"

fun inf_of :: "bool \<Rightarrow> jsnum" where
  "inf_of True = PInf"
| "inf_of False = NInf"

subsection \<open>Rounding to nearest, ties to even\<close>

text \<open>
  \<open>rne\<close> rounds a real to the nearest integer, ties to the even one. \<open>expo x\<close> is
  \<open>\<lfloor>log\<^sub>2 x\<rfloor>\<close> for a positive \<open>x\<close>, computed from the bit length of an integer.
  \<open>round_real p emin x\<close> rounds \<open>x\<close> to a multiple of the quantum of its binade, with
  \<open>p\<close> bits of precision and gradual underflow below \<open>2 powi emin\<close>;
  \<open>round_fp\<close> adds the overflow to an infinity. \<open>fl64\<close> is the rounding of every
  arithmetic operation on numbers, \<open>fl32\<close> the rounding of a store into a
  \<^verbatim>\<open>Float32Array\<close>.
\<close>

definition rne :: "real \<Rightarrow> int" where
  "rne x = (let f = \<lfloor>x\<rfloor>; d = x - of_int f in
     if d < 1/2 then f else if 1/2 < d then f + 1 else if even f then f else f + 1)"

definition expo :: "real \<Rightarrow> int" where
  "expo x = (if 1 \<le> x then bitlen \<lfloor>x\<rfloor> - 1 else - bitlen (\<lceil>1 / x\<rceil> - 1))"

definition round_real :: "nat \<Rightarrow> int \<Rightarrow> real \<Rightarrow> real" where
  "round_real p emin x =
     (let q = 2 powi (max (expo \<bar>x\<bar>) emin - int p + 1) in of_int (rne (x / q)) * q)"

definition round_fp :: "nat \<Rightarrow> int \<Rightarrow> int \<Rightarrow> real \<Rightarrow> jsnum" where
  "round_fp p emin emax x =
     (if x = 0 then Fin 0 else
      let r = round_real p emin x in
      if 2 powi (emax + 1) \<le> \<bar>r\<bar> then inf_of (0 < x) else Fin r)"

definition fl64 :: "real \<Rightarrow> jsnum" where
  "fl64 = round_fp 53 (-1022) 1023"

definition fl32 :: "real \<Rightarrow> jsnum" where
  "fl32 = round_fp 24 (-126) 127"

subsection \<open>Arithmetic, comparison and \<^verbatim>\<open>Math\<close> functions\<close>

fun js_add :: "jsnum \<Rightarrow> jsnum \<Rightarrow> jsnum" where
  "js_add (Fin x) (Fin y) = fl64 (x + y)"
| "js_add NaN b = NaN"
| "js_add a NaN = NaN"
| "js_add PInf NInf = NaN"
| "js_add NInf PInf = NaN"
| "js_add PInf b = PInf"
| "js_add a PInf = PInf"
| "js_add NInf b = NInf"
| "js_add a NInf = NInf"

fun js_sub :: "jsnum \<Rightarrow> jsnum \<Rightarrow> jsnum" where
  "js_sub (Fin x) (Fin y) = fl64 (x - y)"
| "js_sub NaN b = NaN"
| "js_sub a NaN = NaN"
| "js_sub PInf PInf = NaN"
| "js_sub NInf NInf = NaN"
| "js_sub PInf b = PInf"
| "js_sub a PInf = NInf"
| "js_sub NInf b = NInf"
| "js_sub a NInf = PInf"

fun js_mul :: "jsnum \<Rightarrow> jsnum \<Rightarrow> jsnum" where
  "js_mul (Fin x) (Fin y) = fl64 (x * y)"
| "js_mul NaN b = NaN"
| "js_mul a NaN = NaN"
| "js_mul (Fin x) PInf = (if x = 0 then NaN else inf_of (0 < x))"
| "js_mul (Fin x) NInf = (if x = 0 then NaN else inf_of (x < 0))"
| "js_mul PInf (Fin y) = (if y = 0 then NaN else inf_of (0 < y))"
| "js_mul NInf (Fin y) = (if y = 0 then NaN else inf_of (y < 0))"
| "js_mul PInf PInf = PInf"
| "js_mul PInf NInf = NInf"
| "js_mul NInf PInf = NInf"
| "js_mul NInf NInf = PInf"

fun js_div :: "jsnum \<Rightarrow> jsnum \<Rightarrow> jsnum" where
  "js_div (Fin x) (Fin y) =
     (if y = 0 then (if x = 0 then NaN else inf_of (0 < x)) else fl64 (x / y))"
| "js_div NaN b = NaN"
| "js_div a NaN = NaN"
| "js_div (Fin x) PInf = Fin 0"
| "js_div (Fin x) NInf = Fin 0"
| "js_div PInf (Fin y) = inf_of (0 \<le> y)"
| "js_div NInf (Fin y) = inf_of (y < 0)"
| "js_div PInf PInf = NaN"
| "js_div PInf NInf = NaN"
| "js_div NInf PInf = NaN"
| "js_div NInf NInf = NaN"

fun js_lt :: "jsnum \<Rightarrow> jsnum \<Rightarrow> bool" where
  "js_lt (Fin x) (Fin y) = (x < y)"
| "js_lt NaN b = False"
| "js_lt a NaN = False"
| "js_lt a NInf = False"
| "js_lt NInf b = True"
| "js_lt PInf b = False"
| "js_lt a PInf = True"

fun js_le :: "jsnum \<Rightarrow> jsnum \<Rightarrow> bool" where
  "js_le (Fin x) (Fin y) = (x \<le> y)"
| "js_le NaN b = False"
| "js_le a NaN = False"
| "js_le NInf b = True"
| "js_le a PInf = True"
| "js_le a NInf = False"
| "js_le PInf b = False"

definition js_gt :: "jsnum \<Rightarrow> jsnum \<Rightarrow> bool" where
  "js_gt a b = js_lt b a"

definition js_ge :: "jsnum \<Rightarrow> jsnum \<Rightarrow> bool" where
  "js_ge a b = js_le b a"

definition js_seq :: "jsnum \<Rightarrow> jsnum \<Rightarrow> bool" where
  "js_seq a b = (\<not> isNaN a \<and> \<not> isNaN b \<and> a = b)"

fun js_abs :: "jsnum \<Rightarrow> jsnum" where
  "js_abs (Fin x) = Fin \<bar>x\<bar>"
| "js_abs PInf = PInf"
| "js_abs NInf = PInf"
| "js_abs NaN = NaN"

fun js_floor :: "jsnum \<Rightarrow> jsnum" where
  "js_floor (Fin x) = Fin (of_int \<lfloor>x\<rfloor>)"
| "js_floor PInf = PInf"
| "js_floor NInf = NInf"
| "js_floor NaN = NaN"

definition js_min :: "jsnum \<Rightarrow> jsnum \<Rightarrow> jsnum" where
  "js_min a b = (if isNaN a \<or> isNaN b then NaN else if js_lt b a then b else a)"

subsection \<open>Arrays\<close>

text \<open>
  \<open>rd\<close> reads an element by a natural index, \<open>rd_num\<close> by a number (a key that is
  not an index of the array reads \<^verbatim>\<open>undefined\<close>). \<open>store32\<close> is the conversion
  a \<^verbatim>\<open>Float32Array\<close> applies to a stored number; a store out of range is
  ignored, as \<open>xs[i := v]\<close> does.
\<close>

definition rd :: "jsnum list \<Rightarrow> nat \<Rightarrow> jsnum" where
  "rd xs i = (if i < length xs then xs ! i else NaN)"

fun rd_num :: "jsnum list \<Rightarrow> jsnum \<Rightarrow> jsnum" where
  "rd_num xs (Fin r) = (if 0 \<le> r \<and> of_int \<lfloor>r\<rfloor> = r then rd xs (nat \<lfloor>r\<rfloor>) else NaN)"
| "rd_num xs PInf = NaN"
| "rd_num xs NInf = NaN"
| "rd_num xs NaN = NaN"

fun store32 :: "jsnum \<Rightarrow> jsnum" where
  "store32 (Fin x) = fl32 x"
| "store32 PInf = PInf"
| "store32 NInf = NInf"
| "store32 NaN = NaN"


section \<open>ImageProcessor\<close>

text \<open>
  The class of lines 7-244 (repeated at lines 2164-2310) and its variant of lines
  1268-1530. A \<^verbatim>\<open>null\<close> buffer is \<open>None\<close>. The grid coordinates and the
  dimensions are natural numbers. Rendering (\<^verbatim>\<open>displayIntensity\<close> and the
  like) and the file loader are left out.
\<close>

datatype error = TypeError | NoIntensityData | InferenceError

record ImageProcessor =
  rawIntensityData :: "jsnum list option"
  rawSurfaceData :: "jsnum list option"
  width :: nat
  height :: nat
  lastReconstructed :: "jsnum list option"
  intensityMin :: jsnum
  intensityMax :: jsnum
  surfaceMin :: jsnum
  surfaceMax :: jsnum

subsection \<open>calculateNormalization\<close>

text \<open>
  One iteration of the scan for one buffer: a finite value lowers the minimum and
  raises the maximum, any other value is skipped.
\<close>

definition scan :: "jsnum \<Rightarrow> jsnum \<times> jsnum \<Rightarrow> jsnum \<times> jsnum" where
  "scan v mm =
     (if isFinite v
      then (if js_lt v (fst mm) then v else fst mm, if js_gt v (snd mm) then v else snd mm)
      else mm)"

text \<open>\<^verbatim>\<open>if (max === min) max = min + 1\<close>\<close>

definition widen :: "jsnum \<times> jsnum \<Rightarrow> jsnum \<times> jsnum" where
  "widen mm = (if js_seq (snd mm) (fst mm) then (fst mm, js_add (fst mm) (Fin 1)) else mm)"

definition setRanges :: "ImageProcessor \<Rightarrow> jsnum \<times> jsnum \<Rightarrow> jsnum \<times> jsnum \<Rightarrow> ImageProcessor" where
  "setRanges ip imm smm =
     ip\<lparr>intensityMin := fst (widen imm), intensityMax := snd (widen imm),
        surfaceMin := fst (widen smm), surfaceMax := snd (widen smm)\<rparr>"

text \<open>
  Lines 137-158: a single loop over the indices of the intensity buffer reads both
  buffers. A \<^verbatim>\<open>null\<close> intensity buffer throws at \<^verbatim>\<open>.length\<close>, a
  \<^verbatim>\<open>null\<close> surface buffer at the first read.
\<close>

definition calculateNormalization :: "ImageProcessor \<Rightarrow> error + ImageProcessor" where
  "calculateNormalization ip =
     (case rawIntensityData ip of
        None \<Rightarrow> Inl TypeError
      | Some intensity \<Rightarrow>
          (case rawSurfaceData ip of
             None \<Rightarrow>
               if intensity = [] then Inr (setRanges ip (PInf, NInf) (PInf, NInf))
               else Inl TypeError
           | Some surface \<Rightarrow>
               let r = fold (\<lambda>i (imm, smm). (scan (rd intensity i) imm, scan (rd surface i) smm))
                         [0..<length intensity] ((PInf, NInf), (PInf, NInf))
               in Inr (setRanges ip (fst r) (snd r))))"

text \<open>
  Lines 1337-1370, the variant: one loop for each buffer, over its own length, with the
  test \<^verbatim>\<open>!isNaN(v) && isFinite(v)\<close>.
\<close>

definition scan_v :: "jsnum \<Rightarrow> jsnum \<times> jsnum \<Rightarrow> jsnum \<times> jsnum" where
  "scan_v v mm =
     (if \<not> isNaN v \<and> isFinite v
      then (if js_lt v (fst mm) then v else fst mm, if js_gt v (snd mm) then v else snd mm)
      else mm)"

definition calculateNormalizationParams :: "ImageProcessor \<Rightarrow> error + ImageProcessor" where
  "calculateNormalizationParams ip =
     (case rawIntensityData ip of
        None \<Rightarrow> Inl TypeError
      | Some intensity \<Rightarrow>
          (case rawSurfaceData ip of
             None \<Rightarrow> Inl TypeError
           | Some surface \<Rightarrow>
               let imm = fold (\<lambda>i. scan_v (rd intensity i)) [0..<length intensity] (PInf, NInf);
                   smm = fold (\<lambda>i. scan_v (rd surface i)) [0..<length surface] (PInf, NInf)
               in Inr (setRanges ip imm smm)))"

subsection \<open>processCrop\<close>

definition origIndex :: "nat \<Rightarrow> nat \<Rightarrow> nat \<Rightarrow> nat \<Rightarrow> nat" where
  "origIndex gridX gridY x y = (gridY * 256 + y) * 1024 + gridX * 256 + x"

text \<open>\<^verbatim>\<open>(val - 50481.640625) / 16498.2578125\<close>\<close>

definition normalize :: "jsnum \<Rightarrow> jsnum" where
  "normalize val = js_div (js_sub val (Fin 50481.640625)) (Fin 16498.2578125)"

text \<open>
  The two nested loops over \<open>y\<close> and \<open>x\<close>, writing into a fresh
  \<^verbatim>\<open>Float32Array(256 * 256)\<close>; \<open>f\<close> is what is computed from the value read.
\<close>

definition cropLoop :: "(jsnum \<Rightarrow> jsnum) \<Rightarrow> jsnum list \<Rightarrow> nat \<Rightarrow> nat \<Rightarrow> jsnum list" where
  "cropLoop f raw gridX gridY =
     fold (\<lambda>y. fold (\<lambda>x result.
             result[y * 256 + x := store32 (f (rd raw (origIndex gridX gridY x y)))])
           [0..<256])
       [0..<256] (replicate (256 * 256) (Fin 0))"

text \<open>Lines 204-217 (and 2270-2283).\<close>

definition processCrop :: "ImageProcessor \<Rightarrow> nat \<Rightarrow> nat \<Rightarrow> error + jsnum list" where
  "processCrop ip gridX gridY =
     (case rawIntensityData ip of
        None \<Rightarrow> Inl TypeError
      | Some raw \<Rightarrow> Inr (cropLoop normalize raw gridX gridY))"

text \<open>
  Lines 1414-1447, the variant: a value that is NaN or not finite is replaced by
  \<^verbatim>\<open>0\<close> before the affine transform.
\<close>

definition normalized_v :: "jsnum \<Rightarrow> jsnum" where
  "normalized_v val = (if \<not> isNaN val \<and> isFinite val then val else Fin 0)"

definition processCrop_v :: "ImageProcessor \<Rightarrow> nat \<Rightarrow> nat \<Rightarrow> error + jsnum list" where
  "processCrop_v ip gridX gridY =
     (case rawIntensityData ip of
        None \<Rightarrow> Inl NoIntensityData
      | Some raw \<Rightarrow> Inr (cropLoop (\<lambda>val. normalize (normalized_v val)) raw gridX gridY))"

subsection \<open>combineOutputs\<close>

text \<open>\<^verbatim>\<open>(v * 16498.2578125) + 50481.640625\<close>\<close>

definition denormalize :: "jsnum \<Rightarrow> jsnum" where
  "denormalize v = js_add (js_mul v (Fin 16498.2578125)) (Fin 50481.640625)"

text \<open>The two inner loops of lines 231-238 for one grid cell, with their bounds check.\<close>

definition placeOutput :: "jsnum list \<Rightarrow> nat \<Rightarrow> nat \<Rightarrow> jsnum list \<Rightarrow> jsnum list" where
  "placeOutput output gridX gridY recon =
     fold (\<lambda>y. fold (\<lambda>x recon.
             if gridX * 256 + x < 1024 \<and> gridY * 256 + y < 1024
             then recon[origIndex gridX gridY x y := store32 (denormalize (rd output (y * 256 + x)))]
             else recon)
           [0..<256])
       [0..<256] recon"

text \<open>
  The grid cells in the order of the two outer loops, \<open>gridY\<close> first. The loop over
  them returns \<^verbatim>\<open>false\<close> at the first output whose length is not 65536, with
  the buffer as written so far.
\<close>

definition gridCells :: "(nat \<times> nat) list" where
  "gridCells = List.product [0..<4] [0..<4]"

fun combineCells :: "(nat \<times> nat) list \<Rightarrow> jsnum list list \<Rightarrow> jsnum list \<Rightarrow> bool \<times> jsnum list" where
  "combineCells [] outputs recon = (True, recon)"
| "combineCells ((gridY, gridX) # cells) outputs recon =
     (let output = outputs ! (gridY * 4 + gridX) in
      if length output \<noteq> 65536 then (False, recon)
      else combineCells cells outputs (placeOutput output gridX gridY recon))"

text \<open>
  Lines 219-243 (and 2285-2309). The new buffer is assigned to
  \<^verbatim>\<open>this.lastReconstructed\<close> before the loops, which then write into it. The
  variant of lines 1455-1513 has the same two checks in the same places and the same
  writes (its \<^verbatim>\<open>fill(0)\<close> changes nothing in a fresh buffer); it differs in
  what it displays.
\<close>

definition combineOutputs :: "ImageProcessor \<Rightarrow> jsnum list list \<Rightarrow> bool \<times> ImageProcessor" where
  "combineOutputs ip outputs =
     (if length outputs \<noteq> 16 then (False, ip)
      else
        let r = combineCells gridCells outputs (replicate (width ip * height ip) (Fin 0))
        in (fst r, ip\<lparr>lastReconstructed := Some (snd r)\<rparr>))"


text \<open>
  What the extraction of a tile followed by its placement computes from one value of
  the intensity buffer: the affine transform, a store into the tile, the inverse
  transform and a store into the reconstruction.
\<close>

definition roundTrip :: "jsnum \<Rightarrow> jsnum" where
  "roundTrip v = store32 (denormalize (store32 (normalize v)))"


section \<open>App\<close>

text \<open>
  The controller of lines 246-1257 (repeated at lines 2312-2765) and its variant
  \<^verbatim>\<open>ModelInferenceApp\<close> of lines 1540-2160, which has the same fields. The
  inference backend \<^verbatim>\<open>this.model\<close> is a function from a tile to its output or
  to a failure; \<open>None\<close> is \<^verbatim>\<open>null\<close>. \<open>points\<close> and \<open>pointsMaterial\<close>
  say whether the point cloud and its material exist. Of the page, the state keeps the
  run button, the percentile controls, the threshold handed to the shader and the set of
  pixels tinted on the intensity canvas (\<open>overlay\<close>, one flag for each entry of the
  difference buffer); the progress bar, the timers and the drawing are left out. The
  \<^verbatim>\<open>await\<close>s of \<^verbatim>\<open>runInference\<close> are sequential calls: what another
  event handler does between them is not modelled.
\<close>

record App =
  imageProcessor :: ImageProcessor
  model :: "(jsnum list \<Rightarrow> error + jsnum list) option"
  isRunning :: bool
  imageLoaded :: bool
  currentPercentile :: jsnum
  differenceData :: "jsnum list option"
  diffMin :: "jsnum option"
  diffMax :: "jsnum option"
  points :: bool
  pointsMaterial :: bool
  runBtnDisabled :: bool
  percentileControlsShown :: bool
  shaderThreshold :: "jsnum option"
  overlay :: "bool list"

subsection \<open>createDifferenceData\<close>

definition differenceAt :: "jsnum \<Rightarrow> jsnum \<Rightarrow> jsnum" where
  "differenceAt a b = (if isFinite a \<and> isFinite b then js_abs (js_sub a b) else Fin 0)"

text \<open>The loop of lines 1180-1186, writing into a fresh \<^verbatim>\<open>Float32Array\<close>.\<close>

definition differenceLoop :: "jsnum list \<Rightarrow> jsnum list \<Rightarrow> jsnum list" where
  "differenceLoop intensityData reconstructedData =
     fold (\<lambda>i d. d[i := store32 (differenceAt (rd intensityData i) (rd reconstructedData i))])
       [0..<length intensityData] (replicate (length intensityData) (Fin 0))"

text \<open>
  Lines 1171-1187 (and 2666-2681). A \<^verbatim>\<open>null\<close> intensity buffer throws before
  anything is assigned. A \<^verbatim>\<open>null\<close> reconstruction throws when it is first
  read, which the \<^verbatim>\<open>&&\<close> does at the first finite intensity; the new buffer
  has been assigned by then and holds zeros. The result is the state reached and the
  error thrown, if any.
\<close>

definition createDifferenceData :: "App \<Rightarrow> App \<times> error option" where
  "createDifferenceData app =
     (case rawIntensityData (imageProcessor app) of
        None \<Rightarrow> (app, Some TypeError)
      | Some intensityData \<Rightarrow>
          (case lastReconstructed (imageProcessor app) of
             None \<Rightarrow>
               (app\<lparr>differenceData := Some (replicate (length intensityData) (Fin 0)),
                    diffMin := None, diffMax := None\<rparr>,
                if filter isFinite intensityData = [] then None else Some TypeError)
           | Some reconstructedData \<Rightarrow>
               (app\<lparr>differenceData := Some (differenceLoop intensityData reconstructedData),
                    diffMin := None, diffMax := None\<rparr>, None)))"

text \<open>
  Lines 2029-2072, the variant: it returns early on a missing buffer or on unequal
  lengths, and tests \<^verbatim>\<open>!isNaN(v) && isFinite(v)\<close> on both values.
\<close>

definition differenceAt_v :: "jsnum \<Rightarrow> jsnum \<Rightarrow> jsnum" where
  "differenceAt_v a b =
     (if \<not> isNaN a \<and> isFinite a \<and> \<not> isNaN b \<and> isFinite b then js_abs (js_sub a b) else Fin 0)"

definition createDifferenceImage :: "App \<Rightarrow> App" where
  "createDifferenceImage app =
     (case rawIntensityData (imageProcessor app) of
        None \<Rightarrow> app
      | Some intensityData \<Rightarrow>
          (case lastReconstructed (imageProcessor app) of
             None \<Rightarrow> app
           | Some reconstructedData \<Rightarrow>
               if length intensityData \<noteq> length reconstructedData then app
               else app\<lparr>differenceData :=
                          Some (fold (\<lambda>i d. d[i := store32 (differenceAt_v (rd intensityData i)
                                                              (rd reconstructedData i))])
                                  [0..<length intensityData]
                                  (replicate (length intensityData) (Fin 0))),
                        diffMin := None, diffMax := None\<rparr>))"

subsection \<open>updateHighlighting\<close>

text \<open>
  \<^verbatim>\<open>sort((a, b) => a - b)\<close> is only applied to finite numbers here. On finite
  numbers the sign of \<^verbatim>\<open>a - b\<close> is the sign of the exact difference, so the
  result is in ascending order of value; the sort is stable, as \<open>sort_key\<close> is.
\<close>

definition js_sort :: "jsnum list \<Rightarrow> jsnum list" where
  "js_sort xs = sort_key num_val xs"

text \<open>
  \<^verbatim>\<open>Math.floor((this.currentPercentile / 100) * validDiffs.length)\<close>. The length
  of an array is below \<open>2\<^sup>5\<^sup>3\<close> and so converts to a number exactly.
\<close>

definition thresholdIdx :: "jsnum \<Rightarrow> nat \<Rightarrow> jsnum" where
  "thresholdIdx percentile n = js_floor (js_mul (js_div percentile (Fin 100)) (Fin (real n)))"

text \<open>
  Lines 1195-1197, for a non-empty \<open>validDiffs\<close>:
  \<^verbatim>\<open>validDiffs[Math.min(thresholdIdx, validDiffs.length - 1)]\<close> after the sort.
\<close>

definition thresholdOf :: "jsnum \<Rightarrow> jsnum list \<Rightarrow> jsnum" where
  "thresholdOf percentile validDiffs =
     (let sorted = js_sort validDiffs;
          n = length sorted
      in rd_num sorted (js_min (thresholdIdx percentile n) (Fin (real n - 1))))"

text \<open>\<^verbatim>\<open>this.differenceData.filter(d => isFinite(d) && d > 0)\<close>\<close>

definition validDiffsOf :: "jsnum list \<Rightarrow> jsnum list" where
  "validDiffsOf dvals = filter (\<lambda>d. isFinite d \<and> js_gt d (Fin 0)) dvals"

text \<open>Lines 1203-1223: without a material nothing is updated.\<close>

definition updatePointCloud :: "jsnum \<Rightarrow> App \<Rightarrow> App" where
  "updatePointCloud threshold app =
     (if \<not> pointsMaterial app then app else app\<lparr>shaderThreshold := Some threshold\<rparr>)"

text \<open>
  Lines 1225-1243. The function first calls \<^verbatim>\<open>displayIntensity\<close> (lines
  160-177), which assigns the width of the canvas, and so clears it, and then reads
  \<^verbatim>\<open>this.rawIntensityData[i]\<close>: on a \<^verbatim>\<open>null\<close> intensity buffer that read
  throws, with no pixel tinted and before any entry of the difference buffer is looked
  at. Otherwise the intensity image is repainted, and the loop visits every entry of the
  difference buffer and tints the pixel of an entry that passes its test. \<open>overlay\<close>
  records, for each entry, whether it passed (for a buffer longer than the canvas the
  pixels beyond it do not exist). The result is the state reached and the error thrown,
  if any.
\<close>

definition anomalous :: "jsnum \<Rightarrow> jsnum \<Rightarrow> bool" where
  "anomalous threshold d = (isFinite d \<and> js_ge d threshold)"

definition updateIntensityOverlay :: "jsnum \<Rightarrow> jsnum list \<Rightarrow> App \<Rightarrow> App \<times> error option" where
  "updateIntensityOverlay threshold dvals app =
     (case rawIntensityData (imageProcessor app) of
        None \<Rightarrow> (app\<lparr>overlay := []\<rparr>, Some TypeError)
      | Some intensityData \<Rightarrow> (app\<lparr>overlay := map (anomalous threshold) dvals\<rparr>, None))"

text \<open>
  Lines 1189-1201. (The copy of lines 2683-2695 is the same, but the
  \<^verbatim>\<open>updatePointCloud\<close> it calls colours the points itself, as the variant below
  does.) The result is the state reached and the error thrown by
  \<^verbatim>\<open>updateIntensityOverlay\<close>, if any.
\<close>

definition updateHighlighting :: "App \<Rightarrow> App \<times> error option" where
  "updateHighlighting app =
     (case differenceData app of
        None \<Rightarrow> (app, None)
      | Some dvals \<Rightarrow>
          if \<not> points app then (app, None)
          else
            let validDiffs = validDiffsOf dvals in
            if length validDiffs = 0 then (app, None)
            else
              let threshold = thresholdOf (currentPercentile app) validDiffs
              in updateIntensityOverlay threshold dvals (updatePointCloud threshold app))"

text \<open>
  The value of the local \<^verbatim>\<open>threshold\<close> of \<^verbatim>\<open>updateHighlighting\<close>, when
  the function gets as far as computing it.
\<close>

definition highlightThreshold :: "App \<Rightarrow> jsnum option" where
  "highlightThreshold app =
     (case differenceData app of
        None \<Rightarrow> None
      | Some dvals \<Rightarrow>
          if \<not> points app then None
          else if length (validDiffsOf dvals) = 0 then None
          else Some (thresholdOf (currentPercentile app) (validDiffsOf dvals)))"

text \<open>
  Lines 1688-1712, the variant: the values kept for the order statistic are the
  finite ones, zeros included.
\<close>

definition validDifferencesOf :: "jsnum list \<Rightarrow> jsnum list" where
  "validDifferencesOf dvals = filter (\<lambda>d. \<not> isNaN d \<and> isFinite d) dvals"

text \<open>
  Lines 1717-1772: the variant caches the range of the finite differences when
  \<^verbatim>\<open>!this.diffMin || !this.diffMax\<close> (a \<^verbatim>\<open>null\<close>, a zero or a NaN is
  falsy); the colouring of the points that follows is left out.
\<close>

definition falsy :: "jsnum option \<Rightarrow> bool" where
  "falsy v = (case v of None \<Rightarrow> True | Some x \<Rightarrow> isNaN x \<or> x = Fin 0)"

definition updatePointCloudHighlighting :: "jsnum \<Rightarrow> jsnum list \<Rightarrow> App \<Rightarrow> App" where
  "updatePointCloudHighlighting threshold dvals app =
     (if \<not> points app then app
      else if falsy (diffMin app) \<or> falsy (diffMax app)
      then let r = fold (\<lambda>i. scan_v (rd dvals i)) [0..<length dvals] (PInf, NInf)
           in app\<lparr>diffMin := Some (fst r), diffMax := Some (snd r)\<rparr>
      else app)"

text \<open>
  Lines 1777-1809: the variant's overlay visits the pixels of the 1024 by 1024 canvas
  and needs an intensity buffer.
\<close>

definition updateIntensityHighlighting :: "jsnum \<Rightarrow> jsnum list \<Rightarrow> App \<Rightarrow> App" where
  "updateIntensityHighlighting threshold dvals app =
     (if rawIntensityData (imageProcessor app) = None then app
      else app\<lparr>overlay :=
             map (\<lambda>i. i < 1024 * 1024 \<and> \<not> isNaN (rd dvals i) \<and> isFinite (rd dvals i)
                       \<and> js_ge (rd dvals i) threshold)
               [0..<length dvals]\<rparr>)"

definition updatePercentileHighlighting :: "App \<Rightarrow> App" where
  "updatePercentileHighlighting app =
     (case differenceData app of
        None \<Rightarrow> app
      | Some dvals \<Rightarrow>
          if \<not> points app then app
          else
            let validDifferences = validDifferencesOf dvals in
            if length validDifferences = 0 then app
            else
              let threshold = thresholdOf (currentPercentile app) validDifferences
              in updateIntensityHighlighting threshold dvals
                   (updatePointCloudHighlighting threshold dvals app))"

text \<open>The value of the local \<^verbatim>\<open>threshold\<close> of the variant, when it is computed.\<close>

definition percentileThreshold :: "App \<Rightarrow> jsnum option" where
  "percentileThreshold app =
     (case differenceData app of
        None \<Rightarrow> None
      | Some dvals \<Rightarrow>
          if \<not> points app then None
          else if length (validDifferencesOf dvals) = 0 then None
          else Some (thresholdOf (currentPercentile app) (validDifferencesOf dvals)))"

text \<open>
  The nearest-rank order statistic in the words of the specification: the element of
  the ascending sort at the index \<^verbatim>\<open>floor(percentile / 100 * n)\<close> clamped to
  \<open>n - 1\<close>. The index is a natural number here; the product is the one the code
  computes in floating point (an overflow to \<open>+\<infinity>\<close> is clamped too).
\<close>

definition rankIndex :: "jsnum \<Rightarrow> nat \<Rightarrow> nat" where
  "rankIndex percentile n =
     (case thresholdIdx percentile n of Fin r \<Rightarrow> min (nat \<lfloor>r\<rfloor>) (n - 1) | _ \<Rightarrow> n - 1)"

definition nearestRank :: "jsnum \<Rightarrow> jsnum list \<Rightarrow> jsnum" where
  "nearestRank percentile vs = js_sort vs ! rankIndex percentile (length vs)"

subsection \<open>runInference\<close>

text \<open>
  The two loops of lines 1142-1153: each tile is extracted, handed to the backend, and
  its output appended; the first failure ends the loops.
\<close>

fun collectOutputs ::
  "(jsnum list \<Rightarrow> error + jsnum list) \<Rightarrow> ImageProcessor \<Rightarrow> (nat \<times> nat) list \<Rightarrow> jsnum list list
     \<Rightarrow> error + jsnum list list" where
  "collectOutputs inference ip [] outputs = Inr outputs"
| "collectOutputs inference ip ((gridY, gridX) # cells) outputs =
     (case processCrop ip gridX gridY of
        Inl e \<Rightarrow> Inl e
      | Inr cropData \<Rightarrow>
          (case inference cropData of
             Inl e \<Rightarrow> Inl e
           | Inr output \<Rightarrow> collectOutputs inference ip cells (outputs @ [output])))"

text \<open>The body of the \<^verbatim>\<open>try\<close>; an error leaves the state as it is when thrown.\<close>

definition inferenceBody :: "(jsnum list \<Rightarrow> error + jsnum list) \<Rightarrow> App \<Rightarrow> App" where
  "inferenceBody inference app =
     (case collectOutputs inference (imageProcessor app) gridCells [] of
        Inl e \<Rightarrow> app
      | Inr outputs \<Rightarrow>
          let r = combineOutputs (imageProcessor app) outputs;
              app1 = app\<lparr>imageProcessor := snd r\<rparr>
          in if fst r
             then (case createDifferenceData app1 of
                     (app2, Some e) \<Rightarrow> app2
                   | (app2, None) \<Rightarrow>
                       fst (updateHighlighting (app2\<lparr>percentileControlsShown := True\<rparr>)))
             else app1)"

text \<open>Lines 1131-1169 (and 2626-2664).\<close>

definition runInference :: "App \<Rightarrow> App" where
  "runInference app =
     (case model app of
        None \<Rightarrow> app
      | Some inference \<Rightarrow>
          if isRunning app \<or> \<not> imageLoaded app then app
          else
            let app1 = inferenceBody inference (app\<lparr>isRunning := True, runBtnDisabled := True\<rparr>)
            in app1\<lparr>isRunning := False, runBtnDisabled := False\<rparr>)"


subsection \<open>Initial states\<close>

text \<open>The two constructors (lines 8-20 and 247-297); the page starts without a point cloud.\<close>

definition newImageProcessor :: ImageProcessor where
  "newImageProcessor =
     \<lparr>rawIntensityData = None, rawSurfaceData = None, width = 0, height = 0,
      lastReconstructed = None, intensityMin = Fin 0, intensityMax = Fin 1,
      surfaceMin = Fin 0, surfaceMax = Fin 1\<rparr>"

definition newApp :: App where
  "newApp =
     \<lparr>imageProcessor = newImageProcessor, model = None, isRunning = False,
      imageLoaded = False, currentPercentile = Fin 95, differenceData = None,
      diffMin = None, diffMax = None, points = False, pointsMaterial = False,
      runBtnDisabled = True, percentileControlsShown = False, shaderThreshold = None,
      overlay = []\<rparr>"

text \<open>A page with a point cloud, a difference buffer and a chosen percentile.\<close>

definition sampleApp :: "jsnum list \<Rightarrow> jsnum \<Rightarrow> App" where
  "sampleApp dvals percentile =
     newApp\<lparr>currentPercentile := percentile, differenceData := Some dvals,
            points := True, pointsMaterial := True\<rparr>"

text \<open>A loaded 1024 by 1024 scan, as the loader leaves the processor.\<close>

definition loadedProcessor :: "jsnum list \<Rightarrow> jsnum list \<Rightarrow> ImageProcessor" where
  "loadedProcessor intensity surface =
     newImageProcessor\<lparr>rawIntensityData := Some intensity, rawSurfaceData := Some surface,
       width := 1024, height := 1024\<rparr>"



section \<open>Properties of the rounding\<close>

lemma rne_lower: "\<lfloor>x\<rfloor> \<le> rne x"
  by (simp add: rne_def Let_def)

lemma rne_upper: "rne x \<le> \<lfloor>x\<rfloor> + 1"
  by (simp add: rne_def Let_def)

lemma rne_of_int: "rne (of_int k) = k"
  by (simp add: rne_def Let_def)

lemma rne_mono: "x \<le> y \<Longrightarrow> rne x \<le> rne y"
proof -
  assume xy: "x \<le> y"
  have fl: "\<lfloor>x\<rfloor> \<le> \<lfloor>y\<rfloor>" using xy by (rule floor_mono)
  show ?thesis
  proof (cases "\<lfloor>x\<rfloor> = \<lfloor>y\<rfloor>")
    case True
    then show ?thesis using xy by (auto simp: rne_def Let_def)
  next
    case False
    then have "\<lfloor>x\<rfloor> + 1 \<le> \<lfloor>y\<rfloor>" using fl by simp
    then show ?thesis using rne_upper [of x] rne_lower [of y] by linarith
  qed
qed

lemma rne_ge_int: "of_int k \<le> x \<Longrightarrow> k \<le> rne x"
  using rne_mono [of "of_int k" x] by (simp add: rne_of_int)

lemma rne_le_int: "x \<le> of_int k \<Longrightarrow> rne x \<le> k"
  using rne_mono [of x "of_int k"] by (simp add: rne_of_int)

lemma expo_bounds:
  assumes "0 < x"
  shows "2 powi (expo x) \<le> x" and "x < 2 powi (expo x + 1)"
proof -
  have "2 powi (expo x) \<le> x \<and> x < 2 powi (expo x + 1)"
  proof (cases "1 \<le> x")
    case True
    define n where "n = \<lfloor>x\<rfloor>"
    have n1: "1 \<le> n" using True by (simp add: n_def)
    then have n0: "0 < n" by simp
    have b1: "1 \<le> bitlen n" using n0 by (simp add: bitlen_def floorlog_def)
    from bitlen_bounds [OF n0]
    have lo: "(2::int) ^ nat (bitlen n - 1) \<le> n" and hi: "n < 2 ^ nat (bitlen n)" by auto
    have e: "expo x = bitlen n - 1" using True by (simp add: expo_def n_def)
    have "(2::real) powi (bitlen n - 1) = of_int (2 ^ nat (bitlen n - 1))"
      using b1 by (simp add: power_int_def)
    also have "\<dots> \<le> of_int n" using lo by (simp only: of_int_le_iff)
    also have "\<dots> \<le> x" by (simp add: n_def)
    finally have A: "2 powi (expo x) \<le> x" by (simp add: e)
    have "n + 1 \<le> 2 ^ nat (bitlen n)" using hi by simp
    then have "(of_int (n + 1) :: real) \<le> of_int (2 ^ nat (bitlen n))" by (simp only: of_int_le_iff)
    moreover have "x < of_int (n + 1)" by (simp add: n_def)
    moreover have "(2::real) powi (bitlen n) = of_int (2 ^ nat (bitlen n))"
      using b1 by (simp add: power_int_def)
    ultimately have B: "x < 2 powi (expo x + 1)" by (simp add: e)
    from A B show ?thesis ..
  next
    case False
    define y where "y = 1 / x"
    define m where "m = \<lceil>y\<rceil> - 1"
    have y1: "1 < y" using False assms by (simp add: y_def)
    have m1: "1 \<le> m" using y1 by (simp add: m_def less_ceiling_iff)
    then have m0: "0 < m" by simp
    have my: "of_int m < y" by (simp add: m_def) linarith
    have ym: "y \<le> of_int (m + 1)" by (simp add: m_def)
    have b1: "1 \<le> bitlen m" using m0 by (simp add: bitlen_def floorlog_def)
    from bitlen_bounds [OF m0]
    have lo: "(2::int) ^ nat (bitlen m - 1) \<le> m" and hi: "m < 2 ^ nat (bitlen m)" by auto
    have e: "expo x = - bitlen m" using False by (simp add: expo_def m_def y_def)
    have p1: "(2::real) powi (bitlen m) = of_int (2 ^ nat (bitlen m))"
      using b1 by (simp add: power_int_def)
    have p2: "(2::real) powi (bitlen m - 1) = of_int (2 ^ nat (bitlen m - 1))"
      using b1 by (simp add: power_int_def)
    have "m + 1 \<le> 2 ^ nat (bitlen m)" using hi by simp
    then have "(of_int (m + 1) :: real) \<le> of_int (2 ^ nat (bitlen m))" by (simp only: of_int_le_iff)
    then have yle: "y \<le> 2 powi (bitlen m)" using ym p1 by linarith
    have "(of_int (2 ^ nat (bitlen m - 1)) :: real) \<le> of_int m" using lo by (simp only: of_int_le_iff)
    then have ylt: "2 powi (bitlen m - 1) < y" using my p2 by linarith
    have xy: "1 / y = x" using assms by (simp add: y_def)
    have pos: "0 < (2::real) powi (bitlen m)" "0 < (2::real) powi (bitlen m - 1)" by simp_all
    have "1 / 2 powi (bitlen m) \<le> 1 / y"
      using yle y1 by (intro divide_left_mono) simp_all
    then have A: "2 powi (expo x) \<le> x"
      by (simp only: e power_int_minus_divide xy)
    have e1: "expo x + 1 = - (bitlen m - 1)" by (simp add: e)
    have "1 / y < 1 / 2 powi (bitlen m - 1)"
      using ylt pos(2) y1 by (intro divide_strict_left_mono) simp_all
    then have B: "x < 2 powi (expo x + 1)"
      by (simp only: e1 power_int_minus_divide xy)
    from A B show ?thesis ..
  qed
  then show "2 powi (expo x) \<le> x" and "x < 2 powi (expo x + 1)" by auto
qed


lemma expo_mono:
  assumes "0 < x" "x \<le> y"
  shows "expo x \<le> expo y"
proof (rule ccontr)
  assume "\<not> expo x \<le> expo y"
  then have "expo y + 1 \<le> expo x" by simp
  then have "(2::real) powi (expo y + 1) \<le> 2 powi (expo x)"
    by (intro power_int_increasing) simp_all
  also have "\<dots> \<le> x" using assms(1) by (rule expo_bounds)
  also have "\<dots> \<le> y" by (rule assms(2))
  also have "\<dots> < 2 powi (expo y + 1)" using assms by (intro expo_bounds) simp
  finally show False by simp
qed

lemma round_real_nonneg: "0 \<le> x \<Longrightarrow> 0 \<le> round_real p emin x"
proof -
  assume x: "0 \<le> x"
  define q :: real where "q = 2 powi (max (expo \<bar>x\<bar>) emin - int p + 1)"
  have q: "0 < q" by (simp add: q_def)
  have "of_int 0 \<le> x / q" using x q by simp
  then have "0 \<le> rne (x / q)" by (rule rne_ge_int)
  then show ?thesis using q by (simp add: round_real_def Let_def flip: q_def)
qed

lemma round_real_mono:
  assumes x: "0 < x" and xy: "x \<le> y" and p: "1 \<le> p"
  shows "round_real p emin x \<le> round_real p emin y"
proof -
  define ex where "ex = max (expo x) emin"
  define ey where "ey = max (expo y) emin"
  define qx :: real where "qx = 2 powi (ex - int p + 1)"
  define qy :: real where "qy = 2 powi (ey - int p + 1)"
  have y: "0 < y" using x xy by simp
  have rx: "round_real p emin x = of_int (rne (x / qx)) * qx"
    using x by (simp add: round_real_def Let_def qx_def ex_def)
  have ry: "round_real p emin y = of_int (rne (y / qy)) * qy"
    using y by (simp add: round_real_def Let_def qy_def ey_def)
  have qx: "0 < qx" and qy: "0 < qy" by (simp_all add: qx_def qy_def)
  have exy: "ex \<le> ey" using expo_mono [OF x xy] by (simp add: ex_def ey_def)
  show ?thesis
  proof (cases "ex = ey")
    case True
    then have qq: "qy = qx" by (simp add: qx_def qy_def)
    have "x / qx \<le> y / qx" using xy qx by (simp add: divide_right_mono)
    then have "rne (x / qx) \<le> rne (y / qx)" by (rule rne_mono)
    then have "(of_int (rne (x / qx)) :: real) \<le> of_int (rne (y / qx))" by (simp only: of_int_le_iff)
    then show ?thesis using qx by (simp add: rx ry qq)
  next
    case False
    then have lt: "ex < ey" using exy by simp
    have eyy: "ey = expo y" using lt by (simp add: ex_def ey_def max_def split: if_splits)
    have k1: "(2::real) powi (ex + 1) = of_int (2 ^ p) * qx"
    proof -
      have "(2::real) powi (ex + 1) = 2 powi (int p + (ex - int p + 1))" by simp
      also have "\<dots> = 2 powi (int p) * 2 powi (ex - int p + 1)"
        by (rule power_int_add) simp
      finally show ?thesis by (simp add: qx_def)
    qed
    have k2: "(2::real) powi ey = of_int (2 ^ (p - 1)) * qy"
    proof -
      have "(2::real) powi ey = 2 powi (int (p - 1) + (ey - int p + 1))"
        using p by (simp add: of_nat_diff)
      also have "\<dots> = 2 powi (int (p - 1)) * 2 powi (ey - int p + 1)"
        by (rule power_int_add) simp
      finally show ?thesis by (simp add: qy_def)
    qed
    have "x < 2 powi (expo x + 1)" using x by (rule expo_bounds)
    also have "\<dots> \<le> 2 powi (ex + 1)"
      by (intro power_int_increasing) (simp_all add: ex_def)
    finally have "x < of_int (2 ^ p) * qx" by (simp only: k1)
    then have "x / qx \<le> of_int (2 ^ p)" using qx by (simp add: pos_divide_le_eq)
    then have "rne (x / qx) \<le> 2 ^ p" by (rule rne_le_int)
    then have "(of_int (rne (x / qx)) :: real) \<le> of_int (2 ^ p)" by (simp only: of_int_le_iff)
    then have "of_int (rne (x / qx)) * qx \<le> of_int (2 ^ p) * qx"
      using qx by (simp only: mult_le_cancel_right) simp
    also have "\<dots> = 2 powi (ex + 1)" by (simp only: k1)
    also have "\<dots> \<le> 2 powi ey" using lt by (intro power_int_increasing) simp_all
    finally have A: "of_int (rne (x / qx)) * qx \<le> 2 powi ey" .
    have "2 powi ey \<le> y" using y unfolding eyy by (rule expo_bounds)
    then have "of_int (2 ^ (p - 1)) * qy \<le> y" by (simp only: k2)
    then have "of_int (2 ^ (p - 1)) \<le> y / qy" using qy by (simp add: pos_le_divide_eq)
    then have "2 ^ (p - 1) \<le> rne (y / qy)" by (rule rne_ge_int)
    then have "(of_int (2 ^ (p - 1)) :: real) \<le> of_int (rne (y / qy))" by (simp only: of_int_le_iff)
    then have "of_int (2 ^ (p - 1)) * qy \<le> of_int (rne (y / qy)) * qy"
      using qy by (simp only: mult_le_cancel_right) simp
    then have B: "2 powi ey \<le> of_int (rne (y / qy)) * qy" by (simp only: k2)
    from A B show ?thesis by (simp only: rx ry)
  qed
qed

lemma round_fp_nonneg: "0 \<le> x \<Longrightarrow> js_le (Fin 0) (round_fp p emin emax x)"
  using round_real_nonneg [of x p emin]
  by (cases "0 < x") (simp_all add: round_fp_def Let_def)

lemma round_fp_mono:
  assumes "0 \<le> x" "x \<le> y" "1 \<le> p"
  shows "js_le (round_fp p emin emax x) (round_fp p emin emax y)"
proof (cases "x = 0")
  case True
  then show ?thesis using round_fp_nonneg [of y p emin emax] assms by (simp add: round_fp_def)
next
  case False
  then have x: "0 < x" and y: "0 < y" using assms by simp_all
  have m: "round_real p emin x \<le> round_real p emin y" using x assms(2,3) by (rule round_real_mono)
  have n: "0 \<le> round_real p emin x" using assms(1) by (rule round_real_nonneg)
  show ?thesis using m n x y by (simp add: round_fp_def Let_def)
qed


lemma fl64_cases: "(\<exists>r. fl64 x = Fin r) \<or> fl64 x = PInf \<or> fl64 x = NInf"
  by (cases "0 < x") (simp_all add: fl64_def round_fp_def Let_def)

lemma fl64_not_NaN: "\<not> isNaN (fl64 x)"
  using fl64_cases [of x] by auto

subsection \<open>The error of one rounding\<close>

lemma rne_error: "\<bar>of_int (rne y) - y\<bar> \<le> 1 / 2"
proof -
  have "of_int \<lfloor>y\<rfloor> \<le> y" "y < of_int \<lfloor>y\<rfloor> + 1" by linarith+
  then show ?thesis by (auto simp: rne_def Let_def)
qed

lemma round_real_error:
  "\<bar>round_real p emin x - x\<bar> \<le> 2 powi (max (expo \<bar>x\<bar>) emin - int p)"
proof -
  define E where "E = max (expo \<bar>x\<bar>) emin"
  define q :: real where "q = 2 powi (E - int p + 1)"
  have q: "0 < q" by (simp add: q_def)
  have h: "q / 2 = 2 powi (E - int p)"
    unfolding q_def by (subst power_int_add) simp_all
  have rr: "round_real p emin x = of_int (rne (x / q)) * q"
    by (simp only: round_real_def Let_def q_def E_def)
  have "round_real p emin x - x = q * (of_int (rne (x / q)) - x / q)"
    using q by (simp add: rr algebra_simps)
  then have "\<bar>round_real p emin x - x\<bar> = q * \<bar>of_int (rne (x / q)) - x / q\<bar>"
    using q by (simp add: abs_mult)
  also have "\<dots> \<le> q * (1 / 2)"
    using q rne_error [of "x / q"] by (intro mult_left_mono) simp_all
  finally show ?thesis using h by (simp add: E_def)
qed

lemma expo_less:
  assumes "0 < x" "x < 2 powi k"
  shows "expo x < k"
proof (rule ccontr)
  assume "\<not> expo x < k"
  then have "k \<le> expo x" by simp
  then have "(2::real) powi k \<le> 2 powi (expo x)" by (intro power_int_increasing) simp_all
  also have "\<dots> \<le> x" using assms(1) by (rule expo_bounds)
  finally show False using assms(2) by simp
qed

lemma round_fp_bounded:
  assumes "\<bar>x\<bar> < 2 powi k" "emin < k" "k \<le> emax"
  shows "\<exists>r. round_fp p emin emax x = Fin r \<and> \<bar>r - x\<bar> \<le> 2 powi (k - 1 - int p)"
proof (cases "x = 0")
  case True
  then show ?thesis by (simp add: round_fp_def)
next
  case False
  then have x: "0 < \<bar>x\<bar>" by simp
  define r where "r = round_real p emin x"
  have "expo \<bar>x\<bar> < k" using x assms(1) by (rule expo_less)
  then have "max (expo \<bar>x\<bar>) emin - int p \<le> k - 1 - int p" using assms(2) by simp
  then have "(2::real) powi (max (expo \<bar>x\<bar>) emin - int p) \<le> 2 powi (k - 1 - int p)"
    by (intro power_int_increasing) simp_all
  then have e: "\<bar>r - x\<bar> \<le> 2 powi (k - 1 - int p)"
    unfolding r_def using round_real_error [of p emin x] by linarith
  have "(2::real) powi (k - 1 - int p) \<le> 2 powi k" by (intro power_int_increasing) simp_all
  then have "\<bar>r\<bar> < 2 powi k + 2 powi k" using e assms(1) by linarith
  also have "\<dots> = 2 powi (k + 1)" by (subst power_int_add) simp_all
  also have "\<dots> \<le> 2 powi (emax + 1)" using assms(3) by (intro power_int_increasing) simp_all
  finally have "\<not> 2 powi (emax + 1) \<le> \<bar>r\<bar>" by simp
  then show ?thesis using False e by (simp add: round_fp_def Let_def flip: r_def)
qed

lemma fl64_bounded_18:
  assumes "\<bar>x\<bar> < 262144"
  shows "\<exists>r. fl64 x = Fin r \<and> \<bar>r - x\<bar> \<le> 1 / 2 ^ 36"
proof -
  have "\<bar>x\<bar> < 2 powi 18" using assms by simp
  from round_fp_bounded [OF this, of "-1022" 1023 53]
  show ?thesis by (simp add: fl64_def power_int_minus_divide)
qed

lemma fl64_bounded_4:
  assumes "\<bar>x\<bar> < 16"
  shows "\<exists>r. fl64 x = Fin r \<and> \<bar>r - x\<bar> \<le> 1 / 2 ^ 50"
proof -
  have "\<bar>x\<bar> < 2 powi 4" using assms by simp
  from round_fp_bounded [OF this, of "-1022" 1023 53]
  show ?thesis by (simp add: fl64_def power_int_minus_divide)
qed

lemma fl32_bounded_4:
  assumes "\<bar>x\<bar> < 16"
  shows "\<exists>r. fl32 x = Fin r \<and> \<bar>r - x\<bar> \<le> 1 / 2 ^ 21"
proof -
  have "\<bar>x\<bar> < 2 powi 4" using assms by simp
  from round_fp_bounded [OF this, of "-126" 127 24]
  show ?thesis by (simp add: fl32_def power_int_minus_divide)
qed

lemma fl32_bounded_18:
  assumes "\<bar>x\<bar> < 262144"
  shows "\<exists>r. fl32 x = Fin r \<and> \<bar>r - x\<bar> \<le> 1 / 2 ^ 7"
proof -
  have "\<bar>x\<bar> < 2 powi 18" using assms by simp
  from round_fp_bounded [OF this, of "-126" 127 24]
  show ?thesis by (simp add: fl32_def power_int_minus_divide)
qed


section \<open>Index arithmetic of the grid\<close>

lemma origIndex_bound:
  "gx < 4 \<Longrightarrow> gy < 4 \<Longrightarrow> x < 256 \<Longrightarrow> y < 256 \<Longrightarrow> origIndex gx gy x y < 1048576"
  unfolding origIndex_def by (simp add: algebra_simps)

lemma split_base:
  fixes a r a' r' :: nat
  assumes "a * n + r = a' * n + r'" "r < n" "r' < n"
  shows "a = a' \<and> r = r'"
proof -
  have "(a * n + r) div n = a" "(a * n + r) mod n = r" using assms(2) by simp_all
  moreover have "(a' * n + r') div n = a'" "(a' * n + r') mod n = r'" using assms(3) by simp_all
  ultimately show ?thesis using assms(1) by metis
qed

lemma origIndex_inj:
  assumes "gx < 4" "x < 256" "y < 256" "gx' < 4" "x' < 256" "y' < 256"
    and eq: "origIndex gx gy x y = origIndex gx' gy' x' y'"
  shows "gx = gx' \<and> gy = gy' \<and> x = x' \<and> y = y'"
proof -
  have r: "gx * 256 + x < 1024" "gx' * 256 + x' < 1024" using assms by simp_all
  have "(gy * 256 + y) * 1024 + (gx * 256 + x) = (gy' * 256 + y') * 1024 + (gx' * 256 + x')"
    using eq by (simp only: origIndex_def add.assoc)
  from split_base [OF this r]
  have A: "gy * 256 + y = gy' * 256 + y'" and B: "gx * 256 + x = gx' * 256 + x'" by simp_all
  from split_base [OF A assms(3) assms(6)] split_base [OF B assms(2) assms(5)]
  show ?thesis by simp
qed

lemma origIndex_decompose:
  assumes "i < 1048576"
  shows "origIndex (i mod 1024 div 256) (i div 1024 div 256) (i mod 256) (i div 1024 mod 256) = i"
    and "i mod 1024 div 256 < 4" and "i div 1024 div 256 < 4"
proof -
  have a: "i div 1024 div 256 * 256 + i div 1024 mod 256 = i div 1024"
    by (rule div_mult_mod_eq)
  have b: "i mod 1024 div 256 * 256 + i mod 1024 mod 256 = i mod 1024"
    by (rule div_mult_mod_eq)
  have c: "i mod 1024 mod 256 = i mod 256"
    by (rule mod_mod_cancel) simp
  have d: "i div 1024 * 1024 + i mod 1024 = i"
    by (rule div_mult_mod_eq)
  have "origIndex (i mod 1024 div 256) (i div 1024 div 256) (i mod 256) (i div 1024 mod 256)
          = (i div 1024 div 256 * 256 + i div 1024 mod 256) * 1024
            + (i mod 1024 div 256 * 256 + i mod 1024 mod 256)"
    by (simp only: origIndex_def c add.assoc)
  also have "\<dots> = i" by (simp only: a b d)
  finally show "origIndex (i mod 1024 div 256) (i div 1024 div 256) (i mod 256) (i div 1024 mod 256) = i" .
  have "i mod 1024 < 4 * 256" by simp
  then show "i mod 1024 div 256 < 4" by (simp only: div_less_iff_less_mult)
  have "i div 1024 < 4 * 256" using assms by simp
  then show "i div 1024 div 256 < 4" by (simp only: div_less_iff_less_mult)
qed


lemma gridCells_eq:
  "gridCells = [(0,0),(0,1),(0,2),(0,3),(1,0),(1,1),(1,2),(1,3),
                (2,0),(2,1),(2,2),(2,3),(3,0),(3,1),(3,2),(3,3)]"
  by (simp add: gridCells_def upt_rec)


section \<open>Loops that write one element in each iteration\<close>

lemma fold_update_length:
  "length (fold (\<lambda>e r. r[f e := g e]) es r) = length r"
  by (induction es arbitrary: r) simp_all

lemma fold_update_other:
  "k \<notin> f ` set es \<Longrightarrow> fold (\<lambda>e r. r[f e := g e]) es r ! k = r ! k"
  by (induction es arbitrary: r) auto

lemma fold_update_hit:
  "e \<in> set es \<Longrightarrow> inj_on f (set es) \<Longrightarrow> f e < length r \<Longrightarrow>
     fold (\<lambda>e r. r[f e := g e]) es r ! (f e) = g e"
proof (induction es arbitrary: r)
  case Nil
  then show ?case by simp
next
  case (Cons a es)
  show ?case
  proof (cases "e \<in> set es")
    case True
    have "inj_on f (set es)" using Cons.prems(2) by (simp add: inj_on_def)
    then show ?thesis using Cons.IH [OF True] Cons.prems(3) by simp
  next
    case False
    then have ea: "e = a" using Cons.prems(1) by simp
    have "f a \<notin> f ` set es"
      using Cons.prems(2) False ea by (auto simp: inj_on_def)
    then show ?thesis using Cons.prems(3) by (simp add: ea fold_update_other)
  qed
qed

lemma fold_product:
  "fold (\<lambda>a. fold (h a) bs) as r = fold (\<lambda>(a, b). h a b) (List.product as bs) r"
proof (induction as arbitrary: r)
  case Nil
  then show ?case by simp
next
  case (Cons a as)
  have "fold (\<lambda>(a, b). h a b) (map (Pair a) bs) r = fold (h a) bs r" for r
    by (induction bs arbitrary: r) simp_all
  then show ?case using Cons by simp
qed


section \<open>The loops of processCrop and combineOutputs\<close>

lemma fold_product_update:
  "fold (\<lambda>a. fold (\<lambda>b r. r[F a b := G a b]) bs) as r
     = fold (\<lambda>e r. r[case_prod F e := case_prod G e]) (List.product as bs) r"
proof -
  have "(\<lambda>(a, b). (\<lambda>r. r[F a b := G a b])) = (\<lambda>e r. r[case_prod F e := case_prod G e])"
    by (auto simp: fun_eq_iff)
  then show ?thesis using fold_product [of "\<lambda>a b r. r[F a b := G a b]" bs as r] by simp
qed

lemma pixel_inj: "inj_on (\<lambda>(y, x). y * 256 + x) ({0..<256::nat} \<times> {0..<256::nat})"
  by (auto simp: inj_on_def dest: split_base)

lemma cropLoop_flat:
  "cropLoop f raw gridX gridY =
     fold (\<lambda>e r. r[(\<lambda>(y, x). y * 256 + x) e
                   := (\<lambda>(y, x). store32 (f (rd raw (origIndex gridX gridY x y)))) e])
       (List.product [0..<256] [0..<256]) (replicate 65536 (Fin 0))"
  unfolding cropLoop_def by (simp only: fold_product_update) simp

lemma cropLoop_length: "length (cropLoop f raw gridX gridY) = 65536"
  by (simp only: cropLoop_flat fold_update_length length_replicate)

lemma cropLoop_nth:
  assumes "x < 256" "y < 256"
  shows "cropLoop f raw gridX gridY ! (y * 256 + x)
         = store32 (f (rd raw (origIndex gridX gridY x y)))"
proof -
  have e: "(y, x) \<in> set (List.product [0..<256] [0..<256])" using assms by simp
  have i: "inj_on (\<lambda>(y, x). y * 256 + x) (set (List.product [0..<256] [0..<256]))"
    using pixel_inj by simp
  have l: "(\<lambda>(y, x). y * 256 + x) (y, x) < length (replicate 65536 (Fin 0))"
    using assms by simp
  show ?thesis
    unfolding cropLoop_flat using fold_update_hit [OF e i l] by simp
qed


lemma placeOutput_flat:
  assumes "gridX < 4" "gridY < 4"
  shows "placeOutput output gridX gridY recon =
     fold (\<lambda>e r. r[(\<lambda>(y, x). origIndex gridX gridY x y) e
                   := (\<lambda>(y, x). store32 (denormalize (rd output (y * 256 + x)))) e])
       (List.product [0..<256] [0..<256]) recon"
proof -
  have inner: "fold (\<lambda>x recon.
             if gridX * 256 + x < 1024 \<and> gridY * 256 + y < 1024
             then recon[origIndex gridX gridY x y := store32 (denormalize (rd output (y * 256 + x)))]
             else recon) [0..<256] r
        = fold (\<lambda>x recon.
             recon[origIndex gridX gridY x y := store32 (denormalize (rd output (y * 256 + x)))])
            [0..<256] r" if "y < 256" for y r
    using assms that by (intro fold_cong) auto
  have "placeOutput output gridX gridY recon =
      fold (\<lambda>y. fold (\<lambda>x recon.
             recon[origIndex gridX gridY x y := store32 (denormalize (rd output (y * 256 + x)))])
            [0..<256]) [0..<256] recon"
    unfolding placeOutput_def by (intro fold_cong) (auto simp: inner fun_eq_iff)
  then show ?thesis by (simp only: fold_product_update)
qed

lemma placeOutput_nth:
  assumes "gridX < 4" "gridY < 4" "x < 256" "y < 256"
    and "origIndex gridX gridY x y < length recon"
  shows "placeOutput output gridX gridY recon ! origIndex gridX gridY x y
         = store32 (denormalize (rd output (y * 256 + x)))"
proof -
  let ?es = "List.product [0..<256::nat] [0..<256::nat]"
  have e: "(y, x) \<in> set ?es" using assms(3,4) by simp
  have i: "inj_on (\<lambda>(y, x). origIndex gridX gridY x y) (set ?es)"
  proof (rule inj_onI)
    fix a b assume a: "a \<in> set ?es" and b: "b \<in> set ?es"
      and eq: "(\<lambda>(y, x). origIndex gridX gridY x y) a = (\<lambda>(y, x). origIndex gridX gridY x y) b"
    obtain ya xa yb xb where ab: "a = (ya, xa)" "b = (yb, xb)" by (cases a; cases b) auto
    have "xa < 256" "ya < 256" "xb < 256" "yb < 256" using a b by (simp_all add: ab)
    from origIndex_inj [OF assms(1) this(1,2) assms(1) this(3,4)] eq show "a = b"
      by (simp add: ab)
  qed
  have l: "(\<lambda>(y, x). origIndex gridX gridY x y) (y, x) < length recon"
    using assms(5) by simp
  show ?thesis
    unfolding placeOutput_flat [OF assms(1,2)] using fold_update_hit [OF e i l] by simp
qed

lemma combineCells_ok:
  "\<forall>c \<in> set cells. length (outputs ! (fst c * 4 + snd c)) = 65536 \<Longrightarrow>
     combineCells cells outputs r
       = (True, fold (\<lambda>(gridY, gridX). placeOutput (outputs ! (gridY * 4 + gridX)) gridX gridY) cells r)"
  by (induction cells outputs r rule: combineCells.induct) (simp_all add: Let_def)

lemma grid_inj:
  "inj_on (\<lambda>((gridY, gridX), (y, x)). origIndex gridX gridY x y)
     (({0..<4} \<times> {0..<4}) \<times> ({0..<256} \<times> {0..<256}))"
  by (auto simp: inj_on_def dest: origIndex_inj)

lemma combineGrid_flat:
  "fold (\<lambda>(gridY, gridX). placeOutput (outputs ! (gridY * 4 + gridX)) gridX gridY) gridCells r
     = fold (\<lambda>e r. r[(\<lambda>((gridY, gridX), (y, x)). origIndex gridX gridY x y) e
                     := (\<lambda>((gridY, gridX), (y, x)).
                           store32 (denormalize (rd (outputs ! (gridY * 4 + gridX)) (y * 256 + x)))) e])
         (List.product gridCells (List.product [0..<256] [0..<256])) r"
proof -
  define F :: "nat \<times> nat \<Rightarrow> nat \<times> nat \<Rightarrow> nat"
    where "F = (\<lambda>(gridY, gridX) (y, x). origIndex gridX gridY x y)"
  define G :: "nat \<times> nat \<Rightarrow> nat \<times> nat \<Rightarrow> jsnum"
    where "G = (\<lambda>(gridY, gridX) (y, x).
                store32 (denormalize (rd (outputs ! (gridY * 4 + gridX)) (y * 256 + x))))"
  define pix where "pix = List.product [0..<256::nat] [0..<256::nat]"
  have s1: "fold (\<lambda>(gridY, gridX). placeOutput (outputs ! (gridY * 4 + gridX)) gridX gridY) gridCells r
        = fold (\<lambda>c. fold (\<lambda>e r. r[F c e := G c e]) pix) gridCells r"
    by (intro fold_cong)
      (auto simp: gridCells_def placeOutput_flat fun_eq_iff F_def G_def pix_def)
  have s2: "fold (\<lambda>c. fold (\<lambda>e r. r[F c e := G c e]) pix) gridCells r
        = fold (\<lambda>q r. r[case_prod F q := case_prod G q]) (List.product gridCells pix) r"
    by (rule fold_product_update)
  have s3: "case_prod F = (\<lambda>((gridY, gridX), (y, x)). origIndex gridX gridY x y)"
    by (auto simp: fun_eq_iff F_def)
  have s4: "case_prod G = (\<lambda>((gridY, gridX), (y, x)).
                store32 (denormalize (rd (outputs ! (gridY * 4 + gridX)) (y * 256 + x))))"
    by (auto simp: fun_eq_iff G_def)
  have "fold (\<lambda>(gridY, gridX). placeOutput (outputs ! (gridY * 4 + gridX)) gridX gridY) gridCells r
        = fold (\<lambda>q r. r[case_prod F q := case_prod G q]) (List.product gridCells pix) r"
    using s1 s2 by (rule trans)
  then show ?thesis unfolding s3 s4 pix_def .
qed

lemma combineGrid_length:
  "length (fold (\<lambda>(gridY, gridX). placeOutput (outputs ! (gridY * 4 + gridX)) gridX gridY)
             gridCells r) = length r"
  by (simp only: combineGrid_flat fold_update_length)

lemma combineGrid_nth:
  assumes "gridX < 4" "gridY < 4" "x < 256" "y < 256" "1048576 \<le> length r"
  shows "fold (\<lambda>(gridY, gridX). placeOutput (outputs ! (gridY * 4 + gridX)) gridX gridY)
           gridCells r ! origIndex gridX gridY x y
         = store32 (denormalize (rd (outputs ! (gridY * 4 + gridX)) (y * 256 + x)))"
proof -
  let ?es = "List.product gridCells (List.product [0..<256] [0..<256])"
  have e: "((gridY, gridX), (y, x)) \<in> set ?es" using assms by (simp add: gridCells_def)
  have i: "inj_on (\<lambda>((gridY, gridX), (y, x)). origIndex gridX gridY x y) (set ?es)"
    using grid_inj by (simp add: gridCells_def)
  have l: "(\<lambda>((gridY, gridX), (y, x)). origIndex gridX gridY x y) ((gridY, gridX), (y, x)) < length r"
    using origIndex_bound [OF assms(1-4)] assms(5) by simp
  show ?thesis
    unfolding combineGrid_flat using fold_update_hit [OF e i l] by simp
qed


lemma collectOutputs_identity:
  "rawIntensityData ip = Some raw \<Longrightarrow>
     collectOutputs Inr ip cells acc
       = Inr (acc @ map (\<lambda>(gridY, gridX). cropLoop normalize raw gridX gridY) cells)"
  by (induction cells arbitrary: acc) (auto simp: processCrop_def)

lemma gridCells_nth:
  assumes "gridX < 4" "gridY < 4"
  shows "gridCells ! (gridY * 4 + gridX) = (gridY, gridX)"
proof -
  have "gridY * 4 + gridX < length [0..<4::nat] * length [0..<4::nat]" using assms by simp
  from List.product_nth [OF this] show ?thesis using assms by (simp add: gridCells_def)
qed

lemma length_gridCells: "length gridCells = 16"
  by (simp add: gridCells_def)

lemma roundtrip_buffer:
  assumes len: "length raw = 1048576"
    and outs: "outputs = map (\<lambda>(gridY, gridX). cropLoop normalize raw gridX gridY) gridCells"
  shows "combineCells gridCells outputs (replicate 1048576 (Fin 0)) = (True, map roundTrip raw)"
proof -
  let ?step = "\<lambda>(gridY, gridX). placeOutput (outputs ! (gridY * 4 + gridX)) gridX gridY"
  let ?r = "fold ?step gridCells (replicate 1048576 (Fin 0))"
  have out: "outputs ! (gridY * 4 + gridX) = cropLoop normalize raw gridX gridY"
    if "gridX < 4" "gridY < 4" for gridX gridY
  proof -
    have "gridY * 4 + gridX < length gridCells" using that by (simp add: length_gridCells)
    then show ?thesis by (simp add: outs gridCells_nth [OF that])
  qed
  have "\<forall>c \<in> set gridCells. length (outputs ! (fst c * 4 + snd c)) = 65536"
    by (auto simp: gridCells_def out cropLoop_length)
  then have cc: "combineCells gridCells outputs (replicate 1048576 (Fin 0)) = (True, ?r)"
    by (rule combineCells_ok)
  have "?r = map roundTrip raw"
  proof (rule nth_equalityI)
    show "length ?r = length (map roundTrip raw)"
      by (simp only: combineGrid_length length_replicate length_map len)
  next
    fix i assume "i < length ?r"
    then have i: "i < 1048576" by (simp only: combineGrid_length length_replicate)
    define gx gy x y where "gx = i mod 1024 div 256" and "gy = i div 1024 div 256"
      and "x = i mod 256" and "y = i div 1024 mod 256"
    have b: "gx < 4" "gy < 4" "x < 256" "y < 256"
      using origIndex_decompose(2,3) [OF i] by (simp_all add: gx_def gy_def x_def y_def)
    have e: "origIndex gx gy x y = i"
      using origIndex_decompose(1) [OF i] by (simp add: gx_def gy_def x_def y_def)
    have "?r ! origIndex gx gy x y
          = store32 (denormalize (rd (outputs ! (gy * 4 + gx)) (y * 256 + x)))"
      using b by (intro combineGrid_nth) simp_all
    also have "\<dots> = store32 (denormalize (rd (cropLoop normalize raw gx gy) (y * 256 + x)))"
      by (simp only: out [OF b(1,2)])
    also have "rd (cropLoop normalize raw gx gy) (y * 256 + x)
               = store32 (normalize (rd raw (origIndex gx gy x y)))"
      using b by (simp add: rd_def cropLoop_length cropLoop_nth)
    finally have "?r ! i = store32 (denormalize (store32 (normalize (rd raw i))))"
      by (simp only: e)
    then show "?r ! i = map roundTrip raw ! i"
      using i by (simp add: roundTrip_def rd_def len)
  qed
  then show ?thesis using cc by simp
qed


section \<open>Shape rejection in combineOutputs\<close>

text \<open>An array that does not hold 16 outputs is rejected before anything is assigned.\<close>

lemma combineOutputs_wrong_count:
  "length outputs \<noteq> 16 \<Longrightarrow> combineOutputs ip outputs = (False, ip)"
  by (simp add: combineOutputs_def)

text \<open>
  With 16 outputs the buffer is replaced before the lengths are looked at, and tiles
  are written until a wrong length is met: when the second output is the first one of
  a wrong length, the call returns \<^verbatim>\<open>false\<close> with the first tile already
  placed in the new buffer.
\<close>

lemma combineOutputs_partial_write:
  assumes "length outputs = 16" "length (outputs ! 0) = 65536"
    and "length (outputs ! 1) \<noteq> 65536" "0 < width ip * height ip"
  shows "\<exists>recon. combineOutputs ip outputs = (False, ip\<lparr>lastReconstructed := Some recon\<rparr>)
           \<and> recon ! 0 = store32 (denormalize (outputs ! 0 ! 0))"
proof -
  let ?r = "placeOutput (outputs ! 0) 0 0 (replicate (width ip * height ip) (Fin 0))"
  have c: "combineOutputs ip outputs = (False, ip\<lparr>lastReconstructed := Some ?r\<rparr>)"
    using assms(1-3) by (simp add: combineOutputs_def gridCells_eq)
  have z: "origIndex 0 0 0 0 = 0" by (simp add: origIndex_def)
  have "?r ! origIndex 0 0 0 0 = store32 (denormalize (rd (outputs ! 0) (0 * 256 + 0)))"
    using assms(4) by (intro placeOutput_nth) (simp_all add: z)
  then have "?r ! 0 = store32 (denormalize (outputs ! 0 ! 0))"
    using assms(2) by (simp add: z rd_def)
  with c show ?thesis by blast
qed

text \<open>
  C1: an array of outputs whose length is not 16, or with an output whose length is not
  65536, makes \<^verbatim>\<open>combineOutputs\<close> return \<^verbatim>\<open>false\<close> and leave
  \<^verbatim>\<open>lastReconstructed\<close> as it was. The code keeps this for a wrong number of
  outputs only. With 16 outputs the new buffer is assigned before the lengths are
  looked at: here the first output has 65535 elements, the call returns
  \<^verbatim>\<open>false\<close>, and the reconstruction held before (every element 7) has been
  replaced by a buffer of zeros.
\<close>

theorem combineOutputs_short_output:
  "combineOutputs (newImageProcessor\<lparr>width := 1024, height := 1024,
        lastReconstructed := Some (replicate 1048576 (Fin 7))\<rparr>)
     (replicate 65535 (Fin 0) # replicate 15 (replicate 65536 (Fin 0)))
   = (False, newImageProcessor\<lparr>width := 1024, height := 1024,
        lastReconstructed := Some (replicate 1048576 (Fin 0))\<rparr>)"
  by (simp add: combineOutputs_def gridCells_eq)


section \<open>The guard of runInference\<close>

text \<open>
  C8: \<^verbatim>\<open>runInference\<close> called while a run is in flight, or without a model, or
  without a loaded scan, returns at once and changes nothing of the state.
\<close>

theorem runInference_guard:
  assumes "isRunning app \<or> model app = None \<or> \<not> imageLoaded app"
  shows "runInference app = app"
  using assms by (auto simp: runInference_def split: option.splits)

theorem runInference_guard_witness:
  "isRunning (newApp\<lparr>isRunning := True\<rparr>)
   \<and> runInference (newApp\<lparr>isRunning := True\<rparr>) = newApp\<lparr>isRunning := True\<rparr>"
  using runInference_guard [of "newApp\<lparr>isRunning := True\<rparr>"] by simp


section \<open>Grid coverage\<close>

text \<open>
  A combination \<open>(gridX, gridY, x, y)\<close> of the loops \<^emph>\<open>reads\<close> the flat index \<open>i\<close>
  when, for every loaded intensity buffer, the element \<open>y * 256 + x\<close> of the tile that
  \<^verbatim>\<open>processCrop(gridX, gridY)\<close> returns is computed from the value of the buffer at
  \<open>i\<close>; it \<^emph>\<open>writes\<close> the index \<open>i\<close> when, for every list of 16 outputs of 65536
  elements, the reconstruction that \<^verbatim>\<open>combineOutputs\<close> leaves holds at \<open>i\<close> the value
  computed from the element \<open>y * 256 + x\<close> of the output \<open>gridY * 4 + gridX\<close>. A buffer
  that is NaN at one index and 0 elsewhere tells the indices apart.
\<close>

lemma store32_isNaN: "isNaN (store32 v) = isNaN v"
proof (cases v)
  case (Fin r)
  have "\<not> isNaN (fl32 r)"
    by (cases "0 < r") (simp_all add: fl32_def round_fp_def Let_def)
  then show ?thesis by (simp add: Fin)
qed simp_all

lemma normalize_Fin: "\<not> isNaN (normalize (Fin v))"
proof -
  have c: "(16498.2578125::real) \<noteq> 0" by simp
  show ?thesis
    using fl64_cases [of "v - 50481.640625"] fl64_not_NaN
    by (auto simp: normalize_def)
qed

lemma denormalize_Fin: "\<not> isNaN (denormalize (Fin v))"
  using fl64_cases [of "v * 16498.2578125"] fl64_not_NaN
  by (auto simp: denormalize_def)

lemma stored_NaN:
  "isNaN (store32 (normalize NaN))" "\<not> isNaN (store32 (normalize (Fin 0)))"
  "isNaN (store32 (denormalize NaN))" "\<not> isNaN (store32 (denormalize (Fin 0)))"
  by (simp_all add: store32_isNaN normalize_Fin denormalize_Fin)
     (simp_all add: normalize_def denormalize_def)

lemma gridCells_iff: "(gridY, gridX) \<in> set gridCells \<longleftrightarrow> gridX < 4 \<and> gridY < 4"
  by (auto simp: gridCells_def)

lemma processCrop_reads:
  assumes "gridX < 4" "gridY < 4" "x < 256" "y < 256"
    and "rawIntensityData ip = Some raw" "length raw = 1048576"
  shows "\<exists>tile. processCrop ip gridX gridY = Inr tile \<and> length tile = 65536
           \<and> tile ! (y * 256 + x) = store32 (normalize (raw ! origIndex gridX gridY x y))"
proof -
  have "origIndex gridX gridY x y < length raw"
    using origIndex_bound [OF assms(1-4)] assms(6) by simp
  then have "rd raw (origIndex gridX gridY x y) = raw ! origIndex gridX gridY x y"
    by (simp add: rd_def)
  then show ?thesis
    using cropLoop_nth [OF assms(3,4), of normalize raw gridX gridY] assms(5)
    by (simp add: processCrop_def cropLoop_length)
qed

lemma reads_iff:
  assumes "gridX < 4" "gridY < 4" "x < 256" "y < 256" "j < 1048576"
  shows "(\<forall>ip raw. rawIntensityData ip = Some raw \<and> length raw = 1048576 \<longrightarrow>
            (\<exists>tile. processCrop ip gridX gridY = Inr tile \<and> length tile = 65536
               \<and> tile ! (y * 256 + x) = store32 (normalize (raw ! j))))
         \<longleftrightarrow> origIndex gridX gridY x y = j"
proof
  assume "origIndex gridX gridY x y = j"
  then show "\<forall>ip raw. rawIntensityData ip = Some raw \<and> length raw = 1048576 \<longrightarrow>
            (\<exists>tile. processCrop ip gridX gridY = Inr tile \<and> length tile = 65536
               \<and> tile ! (y * 256 + x) = store32 (normalize (raw ! j)))"
    using processCrop_reads [OF assms(1-4)] by blast
next
  assume R: "\<forall>ip raw. rawIntensityData ip = Some raw \<and> length raw = 1048576 \<longrightarrow>
            (\<exists>tile. processCrop ip gridX gridY = Inr tile \<and> length tile = 65536
               \<and> tile ! (y * 256 + x) = store32 (normalize (raw ! j)))"
  define raw where "raw = (replicate 1048576 (Fin 0))[j := NaN]"
  define ip where "ip = loadedProcessor raw []"
  have a: "rawIntensityData ip = Some raw" "length raw = 1048576"
    by (simp_all add: ip_def raw_def loadedProcessor_def)
  from R a obtain tile where t: "processCrop ip gridX gridY = Inr tile"
    "tile ! (y * 256 + x) = store32 (normalize (raw ! j))" by blast
  from processCrop_reads [OF assms(1-4) a] t(1)
  have e: "tile ! (y * 256 + x) = store32 (normalize (raw ! origIndex gridX gridY x y))" by simp
  have b: "origIndex gridX gridY x y < 1048576" using assms(1-4) by (rule origIndex_bound)
  show "origIndex gridX gridY x y = j"
  proof (rule ccontr)
    assume n: "origIndex gridX gridY x y \<noteq> j"
    have "raw ! j = NaN" using assms(5) by (simp add: raw_def)
    moreover have "raw ! origIndex gridX gridY x y = Fin 0" using n b by (simp add: raw_def)
    ultimately show False using t(2) e stored_NaN(1,2) by simp
  qed
qed

lemma combineOutputs_writes:
  assumes "gridX < 4" "gridY < 4" "x < 256" "y < 256"
    and "width ip = 1024" "height ip = 1024"
    and "length outputs = 16" "\<forall>output\<in>set outputs. length output = 65536"
  shows "\<exists>recon. combineOutputs ip outputs = (True, ip\<lparr>lastReconstructed := Some recon\<rparr>)
           \<and> length recon = 1048576
           \<and> recon ! origIndex gridX gridY x y
               = store32 (denormalize (outputs ! (gridY * 4 + gridX) ! (y * 256 + x)))"
proof -
  let ?r = "fold (\<lambda>(gridY, gridX). placeOutput (outputs ! (gridY * 4 + gridX)) gridX gridY)
              gridCells (replicate 1048576 (Fin 0))"
  have l: "\<forall>c \<in> set gridCells. length (outputs ! (fst c * 4 + snd c)) = 65536"
  proof
    fix c assume "c \<in> set gridCells"
    then have "fst c < 4" "snd c < 4" by (auto simp: gridCells_def)
    then have "fst c * 4 + snd c < length outputs" using assms(7) by simp
    then have "outputs ! (fst c * 4 + snd c) \<in> set outputs" by (rule nth_mem)
    then show "length (outputs ! (fst c * 4 + snd c)) = 65536" using assms(8) by blast
  qed
  have c: "combineOutputs ip outputs = (True, ip\<lparr>lastReconstructed := Some ?r\<rparr>)"
    using assms(5-7) by (simp add: combineOutputs_def combineCells_ok [OF l])
  have n: "length ?r = 1048576" by (simp only: combineGrid_length length_replicate)
  have "gridY * 4 + gridX < length outputs" using assms(1,2,7) by simp
  then have "outputs ! (gridY * 4 + gridX) \<in> set outputs" by (rule nth_mem)
  then have "length (outputs ! (gridY * 4 + gridX)) = 65536" using assms(8) by blast
  then have "rd (outputs ! (gridY * 4 + gridX)) (y * 256 + x)
             = outputs ! (gridY * 4 + gridX) ! (y * 256 + x)"
    using assms(3,4) by (simp add: rd_def)
  then have "?r ! origIndex gridX gridY x y
             = store32 (denormalize (outputs ! (gridY * 4 + gridX) ! (y * 256 + x)))"
    using combineGrid_nth [OF assms(1-4), of "replicate 1048576 (Fin 0)" outputs] by simp
  with c n show ?thesis by blast
qed

lemma writes_iff:
  assumes "gridX < 4" "gridY < 4" "x < 256" "y < 256" "j < 1048576"
  shows "(\<forall>ip outputs. width ip = 1024 \<and> height ip = 1024 \<and> length outputs = 16
              \<and> (\<forall>output\<in>set outputs. length output = 65536) \<longrightarrow>
            (\<exists>recon. combineOutputs ip outputs = (True, ip\<lparr>lastReconstructed := Some recon\<rparr>)
               \<and> length recon = 1048576
               \<and> recon ! j = store32 (denormalize (outputs ! (gridY * 4 + gridX) ! (y * 256 + x)))))
         \<longleftrightarrow> origIndex gridX gridY x y = j"
proof
  assume "origIndex gridX gridY x y = j"
  then show "\<forall>ip outputs. width ip = 1024 \<and> height ip = 1024 \<and> length outputs = 16
              \<and> (\<forall>output\<in>set outputs. length output = 65536) \<longrightarrow>
            (\<exists>recon. combineOutputs ip outputs = (True, ip\<lparr>lastReconstructed := Some recon\<rparr>)
               \<and> length recon = 1048576
               \<and> recon ! j = store32 (denormalize (outputs ! (gridY * 4 + gridX) ! (y * 256 + x))))"
    using combineOutputs_writes [OF assms(1-4)] by blast
next
  assume W: "\<forall>ip outputs. width ip = 1024 \<and> height ip = 1024 \<and> length outputs = 16
              \<and> (\<forall>output\<in>set outputs. length output = 65536) \<longrightarrow>
            (\<exists>recon. combineOutputs ip outputs = (True, ip\<lparr>lastReconstructed := Some recon\<rparr>)
               \<and> length recon = 1048576
               \<and> recon ! j = store32 (denormalize (outputs ! (gridY * 4 + gridX) ! (y * 256 + x))))"
  define gx where "gx = j mod 1024 div 256"
  define gy where "gy = j div 1024 div 256"
  define x0 where "x0 = j mod 256"
  define y0 where "y0 = j div 1024 mod 256"
  have d: "origIndex gx gy x0 y0 = j" "gx < 4" "gy < 4" "x0 < 256" "y0 < 256"
    using origIndex_decompose [OF assms(5)] by (simp_all add: gx_def gy_def x0_def y0_def)
  define Z where "Z = replicate 65536 (Fin 0)"
  define outputs where "outputs = (replicate 16 Z)[gy * 4 + gx := Z[y0 * 256 + x0 := NaN]]"
  define ip where "ip = loadedProcessor [] []"
  have a: "width ip = 1024" "height ip = 1024" "length outputs = 16"
    by (simp_all add: ip_def outputs_def loadedProcessor_def)
  have lz: "length Z = 65536" by (simp add: Z_def)
  have b: "\<forall>output\<in>set outputs. length output = 65536"
  proof
    fix out assume "out \<in> set outputs"
    then have "out \<in> insert (Z[y0 * 256 + x0 := NaN]) (set (replicate 16 Z))"
      unfolding outputs_def using set_update_subset_insert by (rule rev_subsetD)
    then have "out = Z[y0 * 256 + x0 := NaN] \<or> out = Z" by auto
    then show "length out = 65536" using lz by auto
  qed
  have prem: "width ip = 1024 \<and> height ip = 1024 \<and> length outputs = 16
              \<and> (\<forall>output\<in>set outputs. length output = 65536)"
    using a b by (intro conjI)
  from W [THEN spec [where x = ip], THEN spec [where x = outputs], THEN mp, OF prem]
  obtain recon where r:
    "combineOutputs ip outputs = (True, ip\<lparr>lastReconstructed := Some recon\<rparr>)"
    "recon ! j = store32 (denormalize (outputs ! (gridY * 4 + gridX) ! (y * 256 + x)))"
    by (elim exE conjE)
  from combineOutputs_writes [OF d(2,3,4,5) a b] obtain recon' where r':
    "combineOutputs ip outputs = (True, ip\<lparr>lastReconstructed := Some recon'\<rparr>)"
    "recon' ! origIndex gx gy x0 y0
       = store32 (denormalize (outputs ! (gy * 4 + gx) ! (y0 * 256 + x0)))"
    by (elim exE conjE)
  have "lastReconstructed (ip\<lparr>lastReconstructed := Some recon\<rparr>)
        = lastReconstructed (ip\<lparr>lastReconstructed := Some recon'\<rparr>)"
    using r(1) r'(1) by simp
  then have same: "recon = recon'" by simp
  have k0: "gy * 4 + gx < 16" "y0 * 256 + x0 < 65536" using d(2-5) by simp_all
  have k: "gridY * 4 + gridX < 16" "y * 256 + x < 65536" using assms(1-4) by simp_all
  have o0: "outputs ! (gy * 4 + gx) = Z[y0 * 256 + x0 := NaN]"
    unfolding outputs_def using k0(1) by (simp only: nth_list_update_eq length_replicate)
  have "outputs ! (gy * 4 + gx) ! (y0 * 256 + x0) = NaN"
    unfolding o0 using k0(2) by (simp only: nth_list_update_eq lz)
  then have nan: "isNaN (recon ! j)" using r'(2) same d(1) stored_NaN(3) by simp
  have cell: "gridY * 4 + gridX = gy * 4 + gx"
  proof (rule ccontr)
    assume "gridY * 4 + gridX \<noteq> gy * 4 + gx"
    then have "outputs ! (gridY * 4 + gridX) = replicate 16 Z ! (gridY * 4 + gridX)"
      unfolding outputs_def by (simp only: nth_list_update_neq not_sym)
    also have "\<dots> = Z" using k(1) by (rule nth_replicate)
    finally have "outputs ! (gridY * 4 + gridX) ! (y * 256 + x) = Fin 0"
      unfolding Z_def using k(2) by (simp only: nth_replicate)
    then show False using nan r(2) stored_NaN(4) by simp
  qed
  have pix: "y * 256 + x = y0 * 256 + x0"
  proof (rule ccontr)
    assume "y * 256 + x \<noteq> y0 * 256 + x0"
    then have "Z[y0 * 256 + x0 := NaN] ! (y * 256 + x) = Z ! (y * 256 + x)"
      by (simp only: nth_list_update_neq not_sym)
    also have "\<dots> = Fin 0" unfolding Z_def using k(2) by (rule nth_replicate)
    finally have "outputs ! (gridY * 4 + gridX) ! (y * 256 + x) = Fin 0"
      by (simp only: cell o0)
    then show False using nan r(2) stored_NaN(4) by simp
  qed
  from split_base [OF cell assms(1) d(2)] split_base [OF pix assms(3) d(4)]
  show "origIndex gridX gridY x y = j" using d(1) by simp
qed

text \<open>
  C9: the loops of \<^verbatim>\<open>processCrop\<close> and \<^verbatim>\<open>combineOutputs\<close> partition the
  1048576 flat indices of a 1024 by 1024 scan. For every index below 1048576 there is
  exactly one combination \<open>(gridX, gridY, x, y)\<close>, of a grid cell visited by the loops and
  \<open>x\<close>, \<open>y\<close> below 256, whose tile element is read from that index, and exactly one
  whose output element is written to that index by \<^verbatim>\<open>combineOutputs\<close>, which
  accepts the outputs. Conversely every combination reads exactly one index and writes
  exactly one, and the loops visit 16 distinct grid cells.
\<close>

theorem grid_partition:
  "(\<forall>i<1048576.
      (\<exists>!(gridX, gridY, x, y). (gridY, gridX) \<in> set gridCells \<and> x < 256 \<and> y < 256
          \<and> (\<forall>ip raw. rawIntensityData ip = Some raw \<and> length raw = 1048576 \<longrightarrow>
                (\<exists>tile. processCrop ip gridX gridY = Inr tile \<and> length tile = 65536
                   \<and> tile ! (y * 256 + x) = store32 (normalize (raw ! i)))))
    \<and> (\<exists>!(gridX, gridY, x, y). (gridY, gridX) \<in> set gridCells \<and> x < 256 \<and> y < 256
          \<and> (\<forall>ip outputs. width ip = 1024 \<and> height ip = 1024 \<and> length outputs = 16
                  \<and> (\<forall>output\<in>set outputs. length output = 65536) \<longrightarrow>
                (\<exists>recon. combineOutputs ip outputs = (True, ip\<lparr>lastReconstructed := Some recon\<rparr>)
                   \<and> length recon = 1048576
                   \<and> recon ! i
                       = store32 (denormalize (outputs ! (gridY * 4 + gridX) ! (y * 256 + x)))))))
   \<and> (\<forall>(gridY, gridX)\<in>set gridCells. \<forall>x<256. \<forall>y<256.
        (\<exists>!i. i < 1048576
          \<and> (\<forall>ip raw. rawIntensityData ip = Some raw \<and> length raw = 1048576 \<longrightarrow>
                (\<exists>tile. processCrop ip gridX gridY = Inr tile \<and> length tile = 65536
                   \<and> tile ! (y * 256 + x) = store32 (normalize (raw ! i)))))
      \<and> (\<exists>!i. i < 1048576
          \<and> (\<forall>ip outputs. width ip = 1024 \<and> height ip = 1024 \<and> length outputs = 16
                  \<and> (\<forall>output\<in>set outputs. length output = 65536) \<longrightarrow>
                (\<exists>recon. combineOutputs ip outputs = (True, ip\<lparr>lastReconstructed := Some recon\<rparr>)
                   \<and> length recon = 1048576
                   \<and> recon ! i
                       = store32 (denormalize (outputs ! (gridY * 4 + gridX) ! (y * 256 + x)))))))
   \<and> distinct gridCells \<and> length gridCells = 16"
proof -
  let ?RD = "\<lambda>gridX gridY x y i.
    \<forall>ip raw. rawIntensityData ip = Some raw \<and> length raw = 1048576 \<longrightarrow>
      (\<exists>tile. processCrop ip gridX gridY = Inr tile \<and> length tile = 65536
         \<and> tile ! (y * 256 + x) = store32 (normalize (raw ! i)))"
  let ?WR = "\<lambda>gridX gridY x y i.
    \<forall>ip outputs. width ip = 1024 \<and> height ip = 1024 \<and> length outputs = 16
        \<and> (\<forall>output\<in>set outputs. length output = 65536) \<longrightarrow>
      (\<exists>recon. combineOutputs ip outputs = (True, ip\<lparr>lastReconstructed := Some recon\<rparr>)
         \<and> length recon = 1048576
         \<and> recon ! i = store32 (denormalize (outputs ! (gridY * 4 + gridX) ! (y * 256 + x))))"
  have A: "(\<exists>!(gridX, gridY, x, y). (gridY, gridX) \<in> set gridCells \<and> x < 256 \<and> y < 256
               \<and> ?RD gridX gridY x y i)
         \<and> (\<exists>!(gridX, gridY, x, y). (gridY, gridX) \<in> set gridCells \<and> x < 256 \<and> y < 256
               \<and> ?WR gridX gridY x y i)"
    if i: "i < 1048576" for i
  proof -
    define q0 where "q0 = (i mod 1024 div 256, i div 1024 div 256, i mod 256, i div 1024 mod 256)"
    note d = origIndex_decompose [OF i]
    have m: "i mod 256 < 256" "i div 1024 mod 256 < 256" by simp_all
    have uniq: "(gx, gy, x, y) = q0"
      if a: "gx < 4" "gy < 4" "x < 256" "y < 256" "origIndex gx gy x y = i" for gx gy x y
    proof -
      have "origIndex gx gy x y
            = origIndex (i mod 1024 div 256) (i div 1024 div 256) (i mod 256) (i div 1024 mod 256)"
        using a(5) d(1) by simp
      from origIndex_inj [OF a(1) a(3) a(4) d(2) m this] show ?thesis by (simp add: q0_def)
    qed
    let ?R = "\<lambda>(gridX, gridY, x, y). (gridY, gridX) \<in> set gridCells \<and> x < 256 \<and> y < 256
               \<and> ?RD gridX gridY x y i"
    let ?W = "\<lambda>(gridX, gridY, x, y). (gridY, gridX) \<in> set gridCells \<and> x < 256 \<and> y < 256
               \<and> ?WR gridX gridY x y i"
    have "\<exists>!q. ?R q"
    proof (rule ex1I)
      have "?RD (i mod 1024 div 256) (i div 1024 div 256) (i mod 256) (i div 1024 mod 256) i"
        using reads_iff [OF d(2,3) m i] d(1) by blast
      then show "?R q0"
        unfolding q0_def prod.case gridCells_iff using d(2,3) m by blast
    next
      fix q assume q: "?R q"
      obtain gx gy x y where qq: "q = (gx, gy, x, y)" by (cases q) auto
      have a: "gx < 4" "gy < 4" "x < 256" "y < 256"
        using q by (simp_all add: qq gridCells_iff)
      have "?RD gx gy x y i" using q unfolding qq prod.case by blast
      then have "origIndex gx gy x y = i" using reads_iff [OF a i] by blast
      with a show "q = q0" unfolding qq by (intro uniq)
    qed
    moreover have "\<exists>!q. ?W q"
    proof (rule ex1I)
      have "?WR (i mod 1024 div 256) (i div 1024 div 256) (i mod 256) (i div 1024 mod 256) i"
        using writes_iff [OF d(2,3) m i] d(1) by blast
      then show "?W q0"
        unfolding q0_def prod.case gridCells_iff using d(2,3) m by blast
    next
      fix q assume q: "?W q"
      obtain gx gy x y where qq: "q = (gx, gy, x, y)" by (cases q) auto
      have a: "gx < 4" "gy < 4" "x < 256" "y < 256"
        using q by (simp_all add: qq gridCells_iff)
      have "?WR gx gy x y i" using q unfolding qq prod.case by blast
      then have "origIndex gx gy x y = i" using writes_iff [OF a i] by blast
      with a show "q = q0" unfolding qq by (intro uniq)
    qed
    ultimately show ?thesis by (rule conjI)
  qed
  have B: "(\<exists>!i. i < 1048576 \<and> ?RD gridX gridY x y i) \<and> (\<exists>!i. i < 1048576 \<and> ?WR gridX gridY x y i)"
    if c: "(gridY, gridX) \<in> set gridCells" and x: "x < 256" and y: "y < 256" for gridY gridX x y
  proof -
    have g: "gridX < 4" "gridY < 4" using c by (simp_all add: gridCells_iff)
    have b: "origIndex gridX gridY x y < 1048576" using g x y by (rule origIndex_bound)
    have "\<exists>!i. i < 1048576 \<and> ?RD gridX gridY x y i"
    proof (rule ex1I [of _ "origIndex gridX gridY x y"])
      show "origIndex gridX gridY x y < 1048576 \<and> ?RD gridX gridY x y (origIndex gridX gridY x y)"
        using reads_iff [OF g x y b] b by blast
    next
      fix i assume "i < 1048576 \<and> ?RD gridX gridY x y i"
      then show "i = origIndex gridX gridY x y" using reads_iff [OF g x y, of i] by blast
    qed
    moreover have "\<exists>!i. i < 1048576 \<and> ?WR gridX gridY x y i"
    proof (rule ex1I [of _ "origIndex gridX gridY x y"])
      show "origIndex gridX gridY x y < 1048576 \<and> ?WR gridX gridY x y (origIndex gridX gridY x y)"
        using writes_iff [OF g x y b] b by blast
    next
      fix i assume "i < 1048576 \<and> ?WR gridX gridY x y i"
      then show "i = origIndex gridX gridY x y" using writes_iff [OF g x y, of i] by blast
    qed
    ultimately show ?thesis by (rule conjI)
  qed
  have C: "distinct gridCells" by (simp add: gridCells_def distinct_product)
  have D: "length gridCells = 16" by (rule length_gridCells)
  have A': "\<forall>i<1048576.
         (\<exists>!(gridX, gridY, x, y). (gridY, gridX) \<in> set gridCells \<and> x < 256 \<and> y < 256
               \<and> ?RD gridX gridY x y i)
         \<and> (\<exists>!(gridX, gridY, x, y). (gridY, gridX) \<in> set gridCells \<and> x < 256 \<and> y < 256
               \<and> ?WR gridX gridY x y i)"
    using A by blast
  have B': "\<forall>(gridY, gridX)\<in>set gridCells. \<forall>x<256. \<forall>y<256.
         (\<exists>!i. i < 1048576 \<and> ?RD gridX gridY x y i) \<and> (\<exists>!i. i < 1048576 \<and> ?WR gridX gridY x y i)"
  proof (rule ballI)
    fix c :: "nat \<times> nat" assume c: "c \<in> set gridCells"
    obtain gridY gridX where cc: "c = (gridY, gridX)" by (cases c) auto
    show "case c of (gridY, gridX) \<Rightarrow> \<forall>x<256. \<forall>y<256.
         (\<exists>!i. i < 1048576 \<and> ?RD gridX gridY x y i) \<and> (\<exists>!i. i < 1048576 \<and> ?WR gridX gridY x y i)"
      unfolding cc prod.case using B c [unfolded cc] by blast
  qed
  from A' B' C D show ?thesis by (intro conjI)
qed

theorem grid_partition_witness:
  "(\<exists>gridX gridY x y tile.
      (gridY, gridX) \<in> set gridCells \<and> x < 256 \<and> y < 256
      \<and> processCrop (loadedProcessor (replicate 1048576 (Fin 0)) (replicate 1048576 (Fin 0)))
            gridX gridY = Inr tile
      \<and> length tile = 65536
      \<and> tile ! (y * 256 + x) = store32 (normalize (replicate 1048576 (Fin 0) ! 1048575)))
   \<and> (\<exists>gridX gridY x y recon.
      (gridY, gridX) \<in> set gridCells \<and> x < 256 \<and> y < 256
      \<and> combineOutputs (loadedProcessor (replicate 1048576 (Fin 0)) (replicate 1048576 (Fin 0)))
            (replicate 16 (replicate 65536 (Fin 0)))
          = (True, loadedProcessor (replicate 1048576 (Fin 0)) (replicate 1048576 (Fin 0))
                     \<lparr>lastReconstructed := Some recon\<rparr>)
      \<and> length recon = 1048576
      \<and> recon ! 1048575
          = store32 (denormalize (replicate 16 (replicate 65536 (Fin 0)) ! (gridY * 4 + gridX)
                                    ! (y * 256 + x))))
   \<and> (\<exists>i tile. i < 1048576
      \<and> processCrop (loadedProcessor (replicate 1048576 (Fin 0)) (replicate 1048576 (Fin 0)))
            3 3 = Inr tile
      \<and> length tile = 65536
      \<and> tile ! (255 * 256 + 255) = store32 (normalize (replicate 1048576 (Fin 0) ! i)))
   \<and> (\<exists>i recon. i < 1048576
      \<and> combineOutputs (loadedProcessor (replicate 1048576 (Fin 0)) (replicate 1048576 (Fin 0)))
            (replicate 16 (replicate 65536 (Fin 0)))
          = (True, loadedProcessor (replicate 1048576 (Fin 0)) (replicate 1048576 (Fin 0))
                     \<lparr>lastReconstructed := Some recon\<rparr>)
      \<and> length recon = 1048576
      \<and> recon ! i
          = store32 (denormalize (replicate 16 (replicate 65536 (Fin 0)) ! (3 * 4 + 3)
                                    ! (255 * 256 + 255))))"
proof -
  let ?raw = "replicate 1048576 (Fin 0)"
  let ?ip = "loadedProcessor ?raw ?raw"
  let ?outs = "replicate 16 (replicate 65536 (Fin 0))"
  have p: "rawIntensityData ?ip = Some ?raw \<and> length ?raw = 1048576"
    by (simp add: loadedProcessor_def)
  have w: "width ?ip = 1024 \<and> height ?ip = 1024 \<and> length ?outs = 16
           \<and> (\<forall>output\<in>set ?outs. length output = 65536)"
    by (simp add: loadedProcessor_def)
  have i: "(1048575::nat) < 1048576" by simp
  have c: "(3::nat, 3::nat) \<in> set gridCells" by (simp add: gridCells_def)
  have x: "(255::nat) < 256" by simp
  note A = grid_partition [THEN conjunct1, rule_format, OF i]
  note B = grid_partition [THEN conjunct2, THEN conjunct1, THEN bspec, OF c,
             unfolded prod.case, rule_format, OF x x]
  from A [THEN conjunct1, THEN ex1_implies_ex] obtain q where
    q: "case q of (gridX, gridY, x, y) \<Rightarrow>
          (gridY, gridX) \<in> set gridCells \<and> x < 256 \<and> y < 256
          \<and> (\<forall>ip raw. rawIntensityData ip = Some raw \<and> length raw = 1048576 \<longrightarrow>
                (\<exists>tile. processCrop ip gridX gridY = Inr tile \<and> length tile = 65536
                   \<and> tile ! (y * 256 + x) = store32 (normalize (raw ! 1048575))))" ..
  obtain gx gy qx qy where qq: "q = (gx, gy, qx, qy)" by (cases q) auto
  note q1 = q [unfolded qq prod.case]
  note q2 = q1 [THEN conjunct2, THEN conjunct2, THEN conjunct2,
                THEN spec [where x = ?ip], THEN spec [where x = ?raw], THEN mp, OF p]
  have r1: "\<exists>gridX gridY x y tile.
      (gridY, gridX) \<in> set gridCells \<and> x < 256 \<and> y < 256
      \<and> processCrop ?ip gridX gridY = Inr tile \<and> length tile = 65536
      \<and> tile ! (y * 256 + x) = store32 (normalize (?raw ! 1048575))"
    using q1 q2 by blast
  from A [THEN conjunct2, THEN ex1_implies_ex] obtain q' where
    q': "case q' of (gridX, gridY, x, y) \<Rightarrow>
          (gridY, gridX) \<in> set gridCells \<and> x < 256 \<and> y < 256
          \<and> (\<forall>ip outputs. width ip = 1024 \<and> height ip = 1024 \<and> length outputs = 16
                  \<and> (\<forall>output\<in>set outputs. length output = 65536) \<longrightarrow>
                (\<exists>recon. combineOutputs ip outputs = (True, ip\<lparr>lastReconstructed := Some recon\<rparr>)
                   \<and> length recon = 1048576
                   \<and> recon ! 1048575
                       = store32 (denormalize (outputs ! (gridY * 4 + gridX) ! (y * 256 + x)))))" ..
  obtain hx hy px py where qq': "q' = (hx, hy, px, py)" by (cases q') auto
  note q1' = q' [unfolded qq' prod.case]
  note q2' = q1' [THEN conjunct2, THEN conjunct2, THEN conjunct2,
                THEN spec [where x = ?ip], THEN spec [where x = ?outs], THEN mp, OF w]
  have r2: "\<exists>gridX gridY x y recon.
      (gridY, gridX) \<in> set gridCells \<and> x < 256 \<and> y < 256
      \<and> combineOutputs ?ip ?outs = (True, ?ip\<lparr>lastReconstructed := Some recon\<rparr>)
      \<and> length recon = 1048576
      \<and> recon ! 1048575 = store32 (denormalize (?outs ! (gridY * 4 + gridX) ! (y * 256 + x)))"
    using q1' q2' by blast
  from B [THEN conjunct1, THEN ex1_implies_ex] obtain j where
    j: "j < 1048576 \<and> (\<forall>ip raw. rawIntensityData ip = Some raw \<and> length raw = 1048576 \<longrightarrow>
                (\<exists>tile. processCrop ip 3 3 = Inr tile \<and> length tile = 65536
                   \<and> tile ! (255 * 256 + 255) = store32 (normalize (raw ! j))))" ..
  note j2 = j [THEN conjunct2, THEN spec [where x = ?ip], THEN spec [where x = ?raw], THEN mp, OF p]
  have r3: "\<exists>i tile. i < 1048576 \<and> processCrop ?ip 3 3 = Inr tile \<and> length tile = 65536
      \<and> tile ! (255 * 256 + 255) = store32 (normalize (?raw ! i))"
    using j [THEN conjunct1] j2 by blast
  from B [THEN conjunct2, THEN ex1_implies_ex] obtain k where
    k: "k < 1048576 \<and> (\<forall>ip outputs. width ip = 1024 \<and> height ip = 1024 \<and> length outputs = 16
                  \<and> (\<forall>output\<in>set outputs. length output = 65536) \<longrightarrow>
                (\<exists>recon. combineOutputs ip outputs = (True, ip\<lparr>lastReconstructed := Some recon\<rparr>)
                   \<and> length recon = 1048576
                   \<and> recon ! k
                       = store32 (denormalize (outputs ! (3 * 4 + 3) ! (255 * 256 + 255)))))" ..
  note k2 = k [THEN conjunct2, THEN spec [where x = ?ip], THEN spec [where x = ?outs], THEN mp, OF w]
  have r4: "\<exists>i recon. i < 1048576
      \<and> combineOutputs ?ip ?outs = (True, ?ip\<lparr>lastReconstructed := Some recon\<rparr>)
      \<and> length recon = 1048576
      \<and> recon ! i = store32 (denormalize (?outs ! (3 * 4 + 3) ! (255 * 256 + 255)))"
    using k [THEN conjunct1] k2 by blast
  from r1 r2 r3 r4 show ?thesis by (intro conjI)
qed


section \<open>Round trip through an identity backend\<close>

text \<open>
  The round trip of one value: NaN and the infinities come back as themselves, and a
  finite value of magnitude up to \<open>2\<^sup>1\<^sup>7\<close> comes back within \<open>1 / 50\<close> (the two
  stores in single precision account for the error).
\<close>

lemma roundTrip_nonfinite:
  "roundTrip NaN = NaN" "roundTrip PInf = PInf" "roundTrip NInf = NInf"
  by (simp_all add: roundTrip_def normalize_def denormalize_def)

lemma roundTrip_close:
  assumes "\<bar>v\<bar> \<le> 131072"
  shows "\<exists>r. roundTrip (Fin v) = Fin r \<and> \<bar>r - v\<bar> \<le> 1 / 50"
proof -
  have "\<bar>v - 50481.640625\<bar> < 262144"
    using assms by (simp add: abs_if split: if_splits; linarith)
  from fl64_bounded_18 [OF this] obtain s where
    s: "fl64 (v - 50481.640625) = Fin s" and se: "\<bar>s - (v - 50481.640625)\<bar> \<le> 1 / 2 ^ 36"
    by blast
  define sd where "sd = s / 16498.2578125"
  have sd: "16498.2578125 * sd = s" by (simp add: sd_def)
  have "\<bar>sd\<bar> < 12" using se sd assms by (simp add: abs_if split: if_splits; linarith)
  then have "\<bar>sd\<bar> < 16" by simp
  from fl64_bounded_4 [OF this] obtain t where
    t: "fl64 sd = Fin t" and te: "\<bar>t - sd\<bar> \<le> 1 / 2 ^ 50"
    by blast
  have "\<bar>t\<bar> < 16" using te \<open>\<bar>sd\<bar> < 12\<close> by (simp add: abs_if split: if_splits; linarith)
  from fl32_bounded_4 [OF this] obtain w where
    w: "fl32 t = Fin w" and we: "\<bar>w - t\<bar> \<le> 1 / 2 ^ 21"
    by blast
  have wb: "\<bar>w * 16498.2578125\<bar> < 262144"
    using we te \<open>\<bar>sd\<bar> < 12\<close> by (simp add: abs_if split: if_splits; linarith)
  from fl64_bounded_18 [OF this] obtain m where
    m: "fl64 (w * 16498.2578125) = Fin m" and me: "\<bar>m - w * 16498.2578125\<bar> \<le> 1 / 2 ^ 36"
    by blast
  have mv: "\<bar>m + 50481.640625 - v\<bar> \<le> 1 / 100"
    using me we te se sd by (simp add: abs_if split: if_splits; linarith)
  then have "\<bar>m + 50481.640625\<bar> < 262144"
    using assms by (simp add: abs_if split: if_splits; linarith)
  from fl64_bounded_18 [OF this] obtain a where
    a: "fl64 (m + 50481.640625) = Fin a" and ae: "\<bar>a - (m + 50481.640625)\<bar> \<le> 1 / 2 ^ 36"
    by blast
  have "\<bar>a\<bar> < 262144"
    using ae mv assms by (simp add: abs_if split: if_splits; linarith)
  from fl32_bounded_18 [OF this] obtain r where
    r: "fl32 a = Fin r" and re: "\<bar>r - a\<bar> \<le> 1 / 2 ^ 7"
    by blast
  have n: "store32 (normalize (Fin v)) = Fin w"
    using s t w by (simp add: normalize_def sd_def)
  have d: "store32 (denormalize (Fin w)) = Fin r"
    using m a r by (simp add: denormalize_def)
  have "\<bar>r - v\<bar> \<le> 1 / 50"
    using re ae me we te se sd by (simp add: abs_if split: if_splits; linarith)
  then show ?thesis by (simp add: roundTrip_def n d)
qed

text \<open>
  The whole of \<^verbatim>\<open>runInference\<close> with such a backend: the run ends, the
  reconstruction is the round trip of the intensity buffer and the difference buffer is
  computed from the two.
\<close>

lemma updateHighlighting_keeps:
  "imageProcessor (fst (updateHighlighting app)) = imageProcessor app"
  "differenceData (fst (updateHighlighting app)) = differenceData app"
  "isRunning (fst (updateHighlighting app)) = isRunning app"
  by (simp_all add: updateHighlighting_def updateIntensityOverlay_def updatePointCloud_def Let_def
      split: option.splits)

lemma combineOutputs_identity:
  assumes "rawIntensityData ip = Some raw" "length raw = 1048576"
    and "width ip = 1024" "height ip = 1024"
  shows "combineOutputs ip (map (\<lambda>(gridY, gridX). cropLoop normalize raw gridX gridY) gridCells)
         = (True, ip\<lparr>lastReconstructed := Some (map roundTrip raw)\<rparr>)"
  using roundtrip_buffer [OF assms(2) refl] assms(3,4)
  by (simp add: combineOutputs_def length_gridCells)

lemma runInference_identity:
  assumes "model app = Some Inr" "\<not> isRunning app" "imageLoaded app"
    and "rawIntensityData (imageProcessor app) = Some raw" "length raw = 1048576"
    and "width (imageProcessor app) = 1024" "height (imageProcessor app) = 1024"
  shows "lastReconstructed (imageProcessor (runInference app)) = Some (map roundTrip raw)"
    and "differenceData (runInference app) = Some (differenceLoop raw (map roundTrip raw))"
    and "\<not> isRunning (runInference app)"
proof -
  let ?app1 = "app\<lparr>isRunning := True, runBtnDisabled := True\<rparr>"
  let ?outs = "map (\<lambda>(gridY, gridX). cropLoop normalize raw gridX gridY) gridCells"
  let ?ip = "imageProcessor app\<lparr>lastReconstructed := Some (map roundTrip raw)\<rparr>"
  have c: "collectOutputs Inr (imageProcessor app) gridCells [] = Inr ?outs"
    using collectOutputs_identity [OF assms(4), of gridCells "[]"] by simp
  have k: "combineOutputs (imageProcessor app) ?outs = (True, ?ip)"
    using assms(4-7) by (rule combineOutputs_identity)
  have d: "createDifferenceData (?app1\<lparr>imageProcessor := ?ip\<rparr>)
           = (?app1\<lparr>imageProcessor := ?ip,
                     differenceData := Some (differenceLoop raw (map roundTrip raw)),
                     diffMin := None, diffMax := None\<rparr>, None)"
    using assms(4) by (simp add: createDifferenceData_def)
  have b: "inferenceBody Inr ?app1
           = fst (updateHighlighting (?app1\<lparr>imageProcessor := ?ip,
                     differenceData := Some (differenceLoop raw (map roundTrip raw)),
                     diffMin := None, diffMax := None, percentileControlsShown := True\<rparr>))"
    by (simp add: inferenceBody_def c k d)
  have r: "runInference app = (inferenceBody Inr ?app1)\<lparr>isRunning := False, runBtnDisabled := False\<rparr>"
    using assms(1-3) by (simp add: runInference_def)
  show "lastReconstructed (imageProcessor (runInference app)) = Some (map roundTrip raw)"
    by (simp add: r b updateHighlighting_keeps)
  show "differenceData (runInference app) = Some (differenceLoop raw (map roundTrip raw))"
    by (simp add: r b updateHighlighting_keeps)
  show "\<not> isRunning (runInference app)" by (simp add: r)
qed

text \<open>
  C2: for a 1024 by 1024 scan and a backend that returns each tile unchanged, the 16
  tiles collected by the loops of \<^verbatim>\<open>runInference\<close> are accepted by
  \<^verbatim>\<open>combineOutputs\<close> and the reconstruction holds, at every index, the value
  of the intensity buffer at that index after the round trip of the affine transform
  and its inverse in floating point. That round trip keeps NaN and the infinities and
  moves a finite value of magnitude up to \<open>2\<^sup>1\<^sup>7\<close> by at most \<open>1 / 50\<close>.
\<close>

theorem identity_backend_roundtrip:
  assumes "rawIntensityData ip = Some raw" "length raw = 1048576"
    and "width ip = 1024" "height ip = 1024"
  shows "(\<exists>outputs. collectOutputs Inr ip gridCells [] = Inr outputs
           \<and> combineOutputs ip outputs
               = (True, ip\<lparr>lastReconstructed := Some (map roundTrip raw)\<rparr>))
       \<and> (\<forall>v. \<bar>v\<bar> \<le> 131072 \<longrightarrow> (\<exists>r. roundTrip (Fin v) = Fin r \<and> \<bar>r - v\<bar> \<le> 1 / 50))
       \<and> roundTrip NaN = NaN \<and> roundTrip PInf = PInf \<and> roundTrip NInf = NInf"
proof -
  let ?outs = "map (\<lambda>(gridY, gridX). cropLoop normalize raw gridX gridY) gridCells"
  have c: "collectOutputs Inr ip gridCells [] = Inr ?outs"
    using collectOutputs_identity [OF assms(1), of gridCells "[]"] by simp
  have "combineOutputs ip ?outs = (True, ip\<lparr>lastReconstructed := Some (map roundTrip raw)\<rparr>)"
    using roundtrip_buffer [OF assms(2) refl] assms(3,4)
    by (simp add: combineOutputs_def length_gridCells)
  with c have "\<exists>outputs. collectOutputs Inr ip gridCells [] = Inr outputs
           \<and> combineOutputs ip outputs
               = (True, ip\<lparr>lastReconstructed := Some (map roundTrip raw)\<rparr>)"
    by blast
  then show ?thesis using roundTrip_close roundTrip_nonfinite by blast
qed

theorem identity_backend_roundtrip_witness:
  "\<exists>outputs.
     collectOutputs Inr (loadedProcessor (replicate 1048576 (Fin 0)) (replicate 1048576 (Fin 0)))
       gridCells [] = Inr outputs
     \<and> combineOutputs (loadedProcessor (replicate 1048576 (Fin 0)) (replicate 1048576 (Fin 0)))
         outputs
       = (True, loadedProcessor (replicate 1048576 (Fin 0)) (replicate 1048576 (Fin 0))
                  \<lparr>lastReconstructed := Some (map roundTrip (replicate 1048576 (Fin 0)))\<rparr>)"
proof -
  let ?ip = "loadedProcessor (replicate 1048576 (Fin 0)) (replicate 1048576 (Fin 0))"
  have a: "rawIntensityData ?ip = Some (replicate 1048576 (Fin 0))"
    and b: "length (replicate 1048576 (Fin 0)) = 1048576"
    and c: "width ?ip = 1024" and d: "height ?ip = 1024"
    by (simp_all add: loadedProcessor_def)
  show ?thesis by (rule identity_backend_roundtrip [OF a b c d, THEN conjunct1])
qed


section \<open>Tile extraction\<close>

lemma normalize_nonfinite:
  "normalize NaN = NaN" "normalize PInf = PInf" "normalize NInf = NInf"
  by (simp_all add: normalize_def)

lemma normalize_zero: "store32 (normalize (Fin 0)) = Fin (- (1604225 / 524288))"
  by code_simp

text \<open>
  C3, as the code has it: for a loaded 1024 by 1024 intensity buffer and grid
  coordinates below 4, both versions of \<^verbatim>\<open>processCrop\<close> return a tile of 65536
  elements. In the version of lines 204-217 the element \<open>y * 256 + x\<close> is the affine
  transform of the intensity at \<open>(gridY * 256 + y) * 1024 + gridX * 256 + x\<close>, stored
  in single precision, whatever that intensity is, and NaN and the infinities come out
  of the transform as themselves. In the variant of lines 1414-1447 an intensity that
  is not finite is replaced by 0 before the transform.
\<close>

theorem processCrop_tile:
  assumes "rawIntensityData ip = Some raw" "length raw = 1048576" "gridX < 4" "gridY < 4"
  shows "\<exists>tile tile_v.
           processCrop ip gridX gridY = Inr tile \<and> length tile = 65536
         \<and> processCrop_v ip gridX gridY = Inr tile_v \<and> length tile_v = 65536
         \<and> (\<forall>x<256. \<forall>y<256.
               tile ! (y * 256 + x) = store32 (normalize (raw ! origIndex gridX gridY x y))
             \<and> tile_v ! (y * 256 + x)
                 = store32 (normalize (if isFinite (raw ! origIndex gridX gridY x y)
                                       then raw ! origIndex gridX gridY x y else Fin 0)))
         \<and> store32 (normalize NaN) = NaN \<and> store32 (normalize PInf) = PInf
         \<and> store32 (normalize NInf) = NInf"
proof -
  have r: "rd raw (origIndex gridX gridY x y) = raw ! origIndex gridX gridY x y"
    if "x < 256" "y < 256" for x y
    using origIndex_bound [OF assms(3,4) that] assms(2) by (simp add: rd_def)
  have nv: "normalized_v v = (if isFinite v then v else Fin 0)" for v
    by (cases v) (simp_all add: normalized_v_def)
  show ?thesis
    using assms(1) by (simp add: processCrop_def processCrop_v_def cropLoop_length cropLoop_nth
        r nv normalize_nonfinite)
qed

theorem processCrop_tile_witness:
  "\<exists>tile tile_v.
     processCrop (loadedProcessor (replicate 1048576 PInf) []) 1 2 = Inr tile
   \<and> length tile = 65536
   \<and> processCrop_v (loadedProcessor (replicate 1048576 PInf) []) 1 2 = Inr tile_v
   \<and> length tile_v = 65536
   \<and> tile ! (4 * 256 + 3) = PInf
   \<and> tile_v ! (4 * 256 + 3) = store32 (normalize (Fin 0))"
proof -
  let ?raw = "replicate 1048576 PInf"
  let ?ip = "loadedProcessor ?raw []"
  have a: "rawIntensityData ?ip = Some ?raw" by (simp add: loadedProcessor_def)
  have b: "length ?raw = 1048576" by simp
  have c: "(1::nat) < 4" "(2::nat) < 4" "(3::nat) < 256" "(4::nat) < 256" by simp_all
  have i: "?raw ! origIndex 1 2 3 4 = PInf"
    using origIndex_bound [OF c] by simp
  from processCrop_tile [OF a b c(1,2)] obtain tile tile_v where
    t: "processCrop ?ip 1 2 = Inr tile" "length tile = 65536"
       "processCrop_v ?ip 1 2 = Inr tile_v" "length tile_v = 65536"
    and el: "\<forall>x<256. \<forall>y<256.
               tile ! (y * 256 + x) = store32 (normalize (?raw ! origIndex 1 2 x y))
             \<and> tile_v ! (y * 256 + x)
                 = store32 (normalize (if isFinite (?raw ! origIndex 1 2 x y)
                                       then ?raw ! origIndex 1 2 x y else Fin 0))"
    and p: "store32 (normalize PInf) = PInf"
    by blast
  from el c(3,4) have
    "tile ! (4 * 256 + 3) = store32 (normalize (?raw ! origIndex 1 2 3 4))
     \<and> tile_v ! (4 * 256 + 3)
         = store32 (normalize (if isFinite (?raw ! origIndex 1 2 3 4)
                               then ?raw ! origIndex 1 2 3 4 else Fin 0))"
    by blast
  then have "tile ! (4 * 256 + 3) = PInf \<and> tile_v ! (4 * 256 + 3) = store32 (normalize (Fin 0))"
    by (simp only: i p isFinite.simps if_False)
  with t show ?thesis by blast
qed

text \<open>
  C3 as stated (no version replaces a non-finite input by zero) fails on the variant:
  on a buffer of NaN its tile holds the transform of 0 where the stated formula gives NaN.
\<close>

theorem processCrop_v_replaces_nonfinite:
  "projr (processCrop_v (loadedProcessor (replicate 1048576 NaN) (replicate 1048576 NaN)) 0 0)
     ! (0 * 256 + 0) = Fin (- (1604225 / 524288))
   \<and> store32 (normalize (replicate 1048576 NaN ! origIndex 0 0 0 0)) = NaN"
proof -
  have z: "(0::nat) < 256" by simp
  have "rd (replicate 1048576 NaN) (origIndex 0 0 0 0) = NaN"
    by (simp add: rd_def origIndex_def)
  then have "cropLoop (\<lambda>val. normalize (normalized_v val)) (replicate 1048576 NaN) 0 0 ! (0 * 256 + 0)
        = Fin (- (1604225 / 524288))"
    by (simp only: cropLoop_nth [OF z z] normalized_v_def isNaN.simps isFinite.simps
        normalize_zero simp_thms if_False)
  moreover have "replicate 1048576 NaN ! origIndex 0 0 0 0 = NaN"
    by (simp add: origIndex_def)
  ultimately show ?thesis
    by (simp add: processCrop_v_def loadedProcessor_def newImageProcessor_def normalize_nonfinite)
qed


section \<open>The difference buffer\<close>

lemma fold_index_nth:
  assumes "i < n" "n \<le> length r"
  shows "fold (\<lambda>i d. d[i := g i]) [0..<n] r ! i = g i"
proof -
  have e: "i \<in> set [0..<n]" using assms by simp
  have j: "inj_on (\<lambda>i. i) (set [0..<n])" by simp
  have l: "(\<lambda>i. i) i < length r" using assms by simp
  from fold_update_hit [OF e j l, of g] show ?thesis by simp
qed

lemma fold_index_length: "length (fold (\<lambda>i d. d[i := g i]) [0..<n] r) = length r"
  using fold_update_length [of "\<lambda>i. i" g "[0..<n]" r] by simp

lemma store32_nonneg: "js_le (Fin 0) v \<Longrightarrow> js_le (Fin 0) (store32 v)"
  by (cases v) (simp_all add: fl32_def round_fp_nonneg)

lemma js_abs_nonneg: "\<not> isNaN v \<Longrightarrow> js_le (Fin 0) (js_abs v)"
  by (cases v) simp_all

lemma differenceAt_nonneg: "js_ge (store32 (differenceAt a b)) (Fin 0)"
proof -
  have "js_le (Fin 0) (differenceAt a b)"
  proof (cases "isFinite a \<and> isFinite b")
    case True
    then obtain x y where "a = Fin x" "b = Fin y" by (cases a; cases b) simp_all
    then have "\<not> isNaN (js_sub a b)" using fl64_cases [of "x - y"] by auto
    then show ?thesis using True by (simp add: differenceAt_def js_abs_nonneg)
  next
    case False
    then show ?thesis by (auto simp: differenceAt_def)
  qed
  then show ?thesis unfolding js_ge_def by (rule store32_nonneg)
qed

lemma differenceAt_v_eq: "differenceAt_v a b = differenceAt a b"
  by (cases a; cases b) (simp_all add: differenceAt_v_def differenceAt_def)

lemma fl32_zero: "fl32 0 = Fin 0"
  by (simp add: fl32_def round_fp_def)

lemma differenceLoop_length: "length (differenceLoop a b) = length a"
  by (simp add: differenceLoop_def fold_index_length)

lemma differenceLoop_nth:
  "i < length a \<Longrightarrow> differenceLoop a b ! i = store32 (differenceAt (rd a i) (rd b i))"
  by (simp add: differenceLoop_def fold_index_nth)

text \<open>
  C7: for an intensity buffer \<open>a\<close> and a reconstruction \<open>b\<close> of equal length, both
  \<^verbatim>\<open>createDifferenceData\<close> and the variant \<^verbatim>\<open>createDifferenceImage\<close>
  produce the same difference buffer: where both values are finite its entry is
  \<^verbatim>\<open>Math.abs(a[i] - b[i])\<close> as stored in the \<^verbatim>\<open>Float32Array\<close>,
  elsewhere it is 0, and every entry is \<open>\<ge> 0\<close>.
\<close>

theorem difference_buffer:
  assumes "rawIntensityData (imageProcessor app) = Some a"
    and "lastReconstructed (imageProcessor app) = Some b"
    and "length a = length b"
  shows "\<exists>d. createDifferenceData app
               = (app\<lparr>differenceData := Some d, diffMin := None, diffMax := None\<rparr>, None)
             \<and> createDifferenceImage app
               = app\<lparr>differenceData := Some d, diffMin := None, diffMax := None\<rparr>
             \<and> length d = length a
             \<and> (\<forall>i<length a.
                   d ! i = (if isFinite (a ! i) \<and> isFinite (b ! i)
                            then store32 (js_abs (js_sub (a ! i) (b ! i))) else Fin 0)
                 \<and> js_ge (d ! i) (Fin 0))"
proof -
  let ?d = "differenceLoop a b"
  have v: "fold (\<lambda>i d. d[i := store32 (differenceAt_v (rd a i) (rd b i))]) [0..<length a]
             (replicate (length a) (Fin 0)) = ?d"
    by (simp add: differenceLoop_def differenceAt_v_eq)
  have 1: "createDifferenceData app
             = (app\<lparr>differenceData := Some ?d, diffMin := None, diffMax := None\<rparr>, None)"
    using assms(1,2) by (simp add: createDifferenceData_def)
  have 2: "createDifferenceImage app
             = app\<lparr>differenceData := Some ?d, diffMin := None, diffMax := None\<rparr>"
    using assms(1,2) assms(3) [symmetric] by (simp add: createDifferenceImage_def v)
  have 3: "length ?d = length a" by (rule differenceLoop_length)
  have 4: "?d ! i = (if isFinite (a ! i) \<and> isFinite (b ! i)
                     then store32 (js_abs (js_sub (a ! i) (b ! i))) else Fin 0)
           \<and> js_ge (?d ! i) (Fin 0)" if "i < length a" for i
    using that assms(3) [symmetric]
    by (simp add: differenceLoop_nth differenceAt_nonneg)
       (simp add: differenceAt_def rd_def fl32_zero)
  from 1 2 3 4 show ?thesis by blast
qed


theorem difference_buffer_witness:
  "\<exists>d. createDifferenceData
           (newApp\<lparr>imageProcessor := (loadedProcessor [Fin 5, NaN] [Fin 0, Fin 0])
                                          \<lparr>lastReconstructed := Some [Fin 2, Fin 1]\<rparr>\<rparr>)
         = (newApp\<lparr>imageProcessor := (loadedProcessor [Fin 5, NaN] [Fin 0, Fin 0])
                                          \<lparr>lastReconstructed := Some [Fin 2, Fin 1]\<rparr>,
                   differenceData := Some d, diffMin := None, diffMax := None\<rparr>, None)
       \<and> length d = 2
       \<and> d ! 0 = store32 (js_abs (js_sub (Fin 5) (Fin 2))) \<and> js_ge (d ! 0) (Fin 0)
       \<and> d ! 1 = Fin 0"
proof -
  let ?a = "[Fin 5, NaN]" and ?b = "[Fin 2, Fin 1]"
  let ?app = "newApp\<lparr>imageProcessor := (loadedProcessor ?a [Fin 0, Fin 0])
                                          \<lparr>lastReconstructed := Some ?b\<rparr>\<rparr>"
  have h: "rawIntensityData (imageProcessor ?app) = Some ?a"
    "lastReconstructed (imageProcessor ?app) = Some ?b" "length ?a = length ?b"
    by (simp_all add: loadedProcessor_def)
  from difference_buffer [OF h] obtain d where
    c: "createDifferenceData ?app
          = (?app\<lparr>differenceData := Some d, diffMin := None, diffMax := None\<rparr>, None)"
    and l: "length d = length ?a"
    and e: "\<forall>i<length ?a.
              d ! i = (if isFinite (?a ! i) \<and> isFinite (?b ! i)
                       then store32 (js_abs (js_sub (?a ! i) (?b ! i))) else Fin 0)
            \<and> js_ge (d ! i) (Fin 0)"
    by blast
  have e0: "d ! 0 = store32 (js_abs (js_sub (Fin 5) (Fin 2)))"
    using e [rule_format, of 0] by simp
  have z: "0 < length ?a" by simp
  have g0: "js_ge (d ! 0) (Fin 0)"
    by (rule e [rule_format, OF z, THEN conjunct2])
  have l2: "length d = 2" using l by simp
  have e1: "d ! 1 = Fin 0"
    using e [rule_format, of 1] by simp
  from c l2 e0 g0 e1 show ?thesis by blast
qed


section \<open>Normalization ranges\<close>

lemma scan_v_eq: "scan_v = scan"
proof (intro ext)
  fix v mm show "scan_v v mm = scan v mm"
    by (cases v) (simp_all add: scan_v_def scan_def)
qed

lemma fold_scan_pair:
  "fold (\<lambda>i (imm, smm). (scan (rd I i) imm, scan (rd S i) smm)) js (a, b)
     = (fold (\<lambda>i. scan (rd I i)) js a, fold (\<lambda>i. scan (rd S i)) js b)"
  by (induction js arbitrary: a b) simp_all

lemma fold_scan_indices: "fold (\<lambda>i. scan (rd xs i)) [0..<length xs] mm = fold scan xs mm"
proof -
  have "map (rd xs) [0..<length xs] = xs"
    by (rule nth_equalityI) (simp_all add: rd_def)
  then have "fold scan xs mm = fold scan (map (rd xs) [0..<length xs]) mm" by simp
  also have "\<dots> = fold (scan \<circ> rd xs) [0..<length xs] mm" by (simp only: fold_map)
  finally show ?thesis by (simp add: comp_def)
qed

lemma fold_scan_indices_short:
  "length ys \<le> length xs \<Longrightarrow>
     fold (\<lambda>i. scan (rd ys i)) [0..<length xs] mm = fold scan ys mm"
proof -
  assume l: "length ys \<le> length xs"
  have s: "fold (\<lambda>i. scan (rd ys i)) [length ys..<length ys + k] mm = mm" for k mm
    by (induction k) (simp_all add: rd_def scan_def)
  have "[0..<length ys + (length xs - length ys)]
          = [0..<length ys] @ [length ys..<length ys + (length xs - length ys)]"
    by (rule upt_add_eq_append) simp
  moreover have "length ys + (length xs - length ys) = length xs" using l by simp
  ultimately have "[0..<length xs]
          = [0..<length ys] @ [length ys..<length ys + (length xs - length ys)]" by simp
  then show ?thesis by (simp only: fold_append comp_def s fold_scan_indices)
qed

lemma fold_scan_range:
  "fold scan xs (PInf, NInf) =
     (if filter isFinite xs = [] then (PInf, NInf)
      else (Fin (Min (set (map num_val (filter isFinite xs)))),
            Fin (Max (set (map num_val (filter isFinite xs))))))"
proof (induction xs rule: rev_induct)
  case Nil
  then show ?case by simp
next
  case (snoc v xs)
  let ?F = "set (map num_val (filter isFinite xs))"
  show ?case
  proof (cases v)
    case (Fin x)
    show ?thesis
    proof (cases "filter isFinite xs = []")
      case True
      then show ?thesis using snoc Fin by (simp add: scan_def js_gt_def)
    next
      case False
      then have ne: "?F \<noteq> {}" by (auto simp: filter_empty_conv)
      have fin: "finite ?F" by simp
      show ?thesis using snoc Fin False Min_insert [OF fin ne, of x] Max_insert [OF fin ne, of x]
        by (auto simp: scan_def js_gt_def min_def max_def)
    qed
  qed (use snoc in \<open>simp_all add: scan_def\<close>)
qed

lemma fold_scan_constant:
  "0 < n \<Longrightarrow> fold scan (replicate n (Fin c)) (PInf, NInf) = (Fin c, Fin c)"
  by (subst fold_scan_range) simp


lemma widen_simps:
  "widen (PInf, NInf) = (PInf, NInf)"
  "widen (Fin lo, Fin hi) = (if hi = lo then (Fin lo, fl64 (lo + 1)) else (Fin lo, Fin hi))"
  by (simp_all add: widen_def js_seq_def)

lemma calculateNormalization_scan:
  assumes "rawIntensityData ip = Some I" "rawSurfaceData ip = Some S" "length S = length I"
  shows "calculateNormalization ip
           = Inr (setRanges ip (fold scan I (PInf, NInf)) (fold scan S (PInf, NInf)))"
    and "calculateNormalizationParams ip
           = Inr (setRanges ip (fold scan I (PInf, NInf)) (fold scan S (PInf, NInf)))"
proof -
  have "fold (\<lambda>i. scan (rd S i)) [0..<length I] (PInf, NInf) = fold scan S (PInf, NInf)"
    using fold_scan_indices [of S] assms(3) by simp
  then show "calculateNormalization ip
           = Inr (setRanges ip (fold scan I (PInf, NInf)) (fold scan S (PInf, NInf)))"
    using assms(1,2)
    by (simp add: calculateNormalization_def fold_scan_pair fold_scan_indices)
  show "calculateNormalizationParams ip
           = Inr (setRanges ip (fold scan I (PInf, NInf)) (fold scan S (PInf, NInf)))"
    using assms(1,2)
    by (simp add: calculateNormalizationParams_def scan_v_eq fold_scan_indices)
qed

lemma fl64_absorbs_one: "fl64 (9007199254740992 + 1) = Fin 9007199254740992"
  by code_simp

lemma fl64_one: "fl64 (0 + 1) = Fin 1"
  by code_simp

text \<open>
  What holds of the scan: the buffers are left as they are; without a finite entry the
  range stays at \<open>(+\<infinity>, -\<infinity>)\<close>; otherwise the minimum and the maximum are those of
  the finite entries, and equal ones make the maximum \<^verbatim>\<open>min + 1\<close> as a number
  computes it.
\<close>

lemma calculateNormalization_range:
  assumes "rawIntensityData ip = Some I" "rawSurfaceData ip = Some S" "length S = length I"
  shows "\<exists>ip'. calculateNormalization ip = Inr ip' \<and> calculateNormalizationParams ip = Inr ip'
           \<and> rawIntensityData ip' = Some I \<and> rawSurfaceData ip' = Some S
           \<and> (if filter isFinite I = []
               then intensityMin ip' = PInf \<and> intensityMax ip' = NInf
               else intensityMin ip' = Fin (Min (set (map num_val (filter isFinite I))))
                  \<and> intensityMax ip' =
                      (if Max (set (map num_val (filter isFinite I)))
                            = Min (set (map num_val (filter isFinite I)))
                       then fl64 (Min (set (map num_val (filter isFinite I))) + 1)
                       else Fin (Max (set (map num_val (filter isFinite I))))))"
  using assms(1,2)
  by (simp add: calculateNormalization_scan [OF assms] setRanges_def fold_scan_range widen_simps)

lemma fl64_of_int:
  assumes "\<bar>k\<bar> < 2 ^ 53"
  shows "fl64 (of_int k) = Fin (of_int k)"
proof (cases "k = 0")
  case True
  then show ?thesis by (simp add: fl64_def round_fp_def)
next
  case False
  define x :: real where "x = of_int k"
  define e where "e = expo \<bar>x\<bar>"
  have x1: "1 \<le> \<bar>x\<bar>" using False by (simp add: x_def flip: of_int_abs)
  then have x0: "0 < \<bar>x\<bar>" by simp
  have xl: "\<bar>x\<bar> < 2 ^ 53"
    using assms unfolding x_def by (metis of_int_abs of_int_less_numeral_power_cancel_iff)
  have "0 < \<lfloor>\<bar>x\<bar>\<rfloor>" using x1 by simp
  then have "1 \<le> bitlen \<lfloor>\<bar>x\<bar>\<rfloor>" by (simp add: bitlen_def floorlog_def)
  then have e0: "0 \<le> e" using x1 by (simp add: e_def expo_def)
  have "(2::real) powi e \<le> \<bar>x\<bar>" unfolding e_def using x0 by (rule expo_bounds)
  then have "(2::real) powi e < 2 powi 53" using xl by simp
  then have e53: "e < 53" by (rule power_int_le_imp_less_exp [rotated]) simp_all
  define n where "n = nat (52 - e)"
  have q: "(2::real) powi (max (expo \<bar>x\<bar>) (-1022) - int 53 + 1) = 1 / 2 ^ n"
  proof -
    have "max e (-1022) - int 53 + 1 = - int n" using e0 e53 by (simp add: n_def)
    then show ?thesis by (simp only: power_int_minus_divide power_int_of_nat flip: e_def)
  qed
  have d: "x / (1 / 2 ^ n) = of_int (k * 2 ^ n)" by (simp add: x_def)
  have "round_real 53 (-1022) x = of_int (rne (x / (1 / 2 ^ n))) * (1 / 2 ^ n)"
    by (simp only: round_real_def Let_def q)
  also have "\<dots> = of_int (k * 2 ^ n) * (1 / 2 ^ n)" by (simp only: d rne_of_int)
  also have "\<dots> = x" by (simp add: x_def)
  finally have rr: "round_real 53 (-1022) x = x" .
  have "\<bar>x\<bar> < 2 powi (1023 + 1)"
  proof -
    have "(2::real) ^ 53 \<le> 2 ^ 1024" by (rule power_increasing) simp_all
    then show ?thesis using xl by simp
  qed
  then show ?thesis using False
    by (simp add: fl64_def round_fp_def Let_def rr flip: x_def)
qed

text \<open>
  While \<open>min + 1\<close> stays below \<open>2\<^sup>5\<^sup>3\<close> in absolute value the widened maximum is
  above the minimum; for an integer minimum the width is exactly 1.
\<close>

lemma fl64_succ_greater:
  assumes "\<bar>lo + 1\<bar> < 2 ^ 53"
  shows "\<exists>r. fl64 (lo + 1) = Fin r \<and> lo < r"
proof -
  have "\<bar>lo + 1\<bar> < 2 powi 53" using assms by simp
  from round_fp_bounded [OF this, of "-1022" 1023 53]
  obtain r where "fl64 (lo + 1) = Fin r" "\<bar>r - (lo + 1)\<bar> \<le> 1 / 2"
    by (auto simp: fl64_def)
  then show ?thesis by (intro exI [of _ r]) (simp add: abs_if split: if_splits; linarith)
qed

lemma widen_positive_width:
  assumes "\<bar>lo + 1\<bar> < 2 ^ 53"
  shows "\<exists>r. widen (Fin lo, Fin lo) = (Fin lo, Fin r) \<and> lo < r"
  using fl64_succ_greater [OF assms] by (simp add: widen_simps)

lemma widen_integer:
  assumes "\<bar>k\<bar> + 1 < 2 ^ 53"
  shows "widen (Fin (of_int k), Fin (of_int k)) = (Fin (of_int k), Fin (of_int k + 1))"
proof -
  have "\<bar>k + 1\<bar> < 2 ^ 53" using assms by linarith
  from fl64_of_int [OF this] show ?thesis by (simp add: widen_simps)
qed

text \<open>
  C4: the range is taken over the finite entries, stays at the sentinels without any,
  and never has zero width, since equal bounds are widened to \<^verbatim>\<open>min + 1\<close>. The
  last part fails in the code: a number of absolute value \<open>2\<^sup>5\<^sup>3\<close> or more absorbs
  the addition of 1. On the constant scan of value \<open>2\<^sup>5\<^sup>3\<close> (a value a
  \<^verbatim>\<open>Float32Array\<close> holds exactly) both versions return with
  \<^verbatim>\<open>intensityMax === intensityMin\<close>.
\<close>

theorem calculateNormalization_zero_width:
  "calculateNormalization
     (loadedProcessor (replicate 1048576 (Fin 9007199254740992)) (replicate 1048576 (Fin 0)))
   = Inr (loadedProcessor (replicate 1048576 (Fin 9007199254740992)) (replicate 1048576 (Fin 0))
        \<lparr>intensityMin := Fin 9007199254740992, intensityMax := Fin 9007199254740992,
         surfaceMin := Fin 0, surfaceMax := Fin 1\<rparr>)
   \<and> calculateNormalizationParams
     (loadedProcessor (replicate 1048576 (Fin 9007199254740992)) (replicate 1048576 (Fin 0)))
   = Inr (loadedProcessor (replicate 1048576 (Fin 9007199254740992)) (replicate 1048576 (Fin 0))
        \<lparr>intensityMin := Fin 9007199254740992, intensityMax := Fin 9007199254740992,
         surfaceMin := Fin 0, surfaceMax := Fin 1\<rparr>)"
proof -
  let ?I = "replicate 1048576 (Fin 9007199254740992)" and ?S = "replicate 1048576 (Fin 0)"
  have a: "rawIntensityData (loadedProcessor ?I ?S) = Some ?I"
    and b: "rawSurfaceData (loadedProcessor ?I ?S) = Some ?S"
    and c: "length ?S = length ?I"
    by (simp_all add: loadedProcessor_def)
  have n: "(0::nat) < 1048576" by simp
  have r: "setRanges (loadedProcessor ?I ?S) (fold scan ?I (PInf, NInf)) (fold scan ?S (PInf, NInf))
           = loadedProcessor ?I ?S
               \<lparr>intensityMin := Fin 9007199254740992, intensityMax := Fin 9007199254740992,
                surfaceMin := Fin 0, surfaceMax := Fin 1\<rparr>"
    by (simp only: fold_scan_constant [OF n] setRanges_def widen_simps fl64_absorbs_one fl64_one
        simp_thms if_True fst_conv snd_conv)
  show ?thesis
    by (simp only: calculateNormalization_scan [OF a b c] r simp_thms)
qed


section \<open>The percentile threshold\<close>

subsection \<open>The index of the threshold\<close>

lemma nonneg_cases: "js_le (Fin 0) v \<longleftrightarrow> v = PInf \<or> (\<exists>a\<ge>0. v = Fin a)"
  by (cases v) simp_all

lemma js_le_PInf: "\<not> isNaN v \<Longrightarrow> js_le v PInf"
  by (cases v) simp_all

lemma fl64_nonneg: "0 \<le> x \<Longrightarrow> js_le (Fin 0) (fl64 x)"
  by (simp add: fl64_def round_fp_nonneg)

lemma fl64_mono: "0 \<le> x \<Longrightarrow> x \<le> y \<Longrightarrow> js_le (fl64 x) (fl64 y)"
  by (simp add: fl64_def round_fp_mono)

lemma js_div_100_nonneg: "js_le (Fin 0) p \<Longrightarrow> js_le (Fin 0) (js_div p (Fin 100))"
  by (cases p) (simp_all add: fl64_nonneg)

lemma js_div_100_mono:
  "js_le (Fin 0) p \<Longrightarrow> js_le p q \<Longrightarrow> js_le (js_div p (Fin 100)) (js_div q (Fin 100))"
  by (cases p; cases q) (simp_all add: fl64_mono js_le_PInf fl64_not_NaN)

lemma js_mul_nat_nonneg:
  "js_le (Fin 0) v \<Longrightarrow> 0 < n \<Longrightarrow> js_le (Fin 0) (js_mul v (Fin (real n)))"
  by (cases v) (simp_all add: fl64_nonneg)

lemma js_mul_nat_mono:
  "js_le (Fin 0) v \<Longrightarrow> js_le v w \<Longrightarrow> 0 < n \<Longrightarrow>
     js_le (js_mul v (Fin (real n))) (js_mul w (Fin (real n)))"
  by (cases v; cases w)
     (simp_all add: fl64_mono js_le_PInf fl64_not_NaN mult_right_mono)

lemma js_floor_nonneg: "js_le (Fin 0) v \<Longrightarrow> js_le (Fin 0) (js_floor v)"
  by (cases v) simp_all

lemma js_floor_mono: "js_le v w \<Longrightarrow> js_le (js_floor v) (js_floor w)"
  by (cases v; cases w) (simp_all add: floor_mono)

lemma thresholdIdx_nonneg:
  "js_le (Fin 0) p \<Longrightarrow> 0 < n \<Longrightarrow> js_le (Fin 0) (thresholdIdx p n)"
  by (simp add: thresholdIdx_def js_floor_nonneg js_mul_nat_nonneg js_div_100_nonneg)

lemma thresholdIdx_mono:
  "js_le (Fin 0) p \<Longrightarrow> js_le p q \<Longrightarrow> 0 < n \<Longrightarrow>
     js_le (thresholdIdx p n) (thresholdIdx q n)"
  by (simp add: thresholdIdx_def js_floor_mono js_mul_nat_mono js_div_100_mono js_div_100_nonneg)

lemma thresholdIdx_integral:
  "thresholdIdx p n = Fin r \<Longrightarrow> of_int \<lfloor>r\<rfloor> = r"
  by (cases "js_mul (js_div p (Fin 100)) (Fin (real n))") (auto simp: thresholdIdx_def)



lemma rankIndex_less: "0 < n \<Longrightarrow> rankIndex p n < n"
  by (auto simp: rankIndex_def split: jsnum.splits)

lemma length_js_sort: "length (js_sort vs) = length vs"
  by (simp add: js_sort_def)

lemma set_js_sort: "set (js_sort vs) = set vs"
  by (simp add: js_sort_def)

lemma mset_js_sort: "mset (js_sort vs) = mset vs"
  by (simp add: js_sort_def)

lemma sorted_js_sort: "sorted (map num_val (js_sort vs))"
  by (simp add: js_sort_def)

lemma clamp_rankIndex:
  assumes "js_le (Fin 0) p" "0 < n"
  shows "js_min (thresholdIdx p n) (Fin (real n - 1)) = Fin (real (rankIndex p n))"
proof -
  from thresholdIdx_nonneg [OF assms] have "js_le (Fin 0) (thresholdIdx p n)" .
  then consider "thresholdIdx p n = PInf" | a where "0 \<le> a" "thresholdIdx p n = Fin a"
    by (auto simp: nonneg_cases)
  then show ?thesis
  proof cases
    case 1
    then show ?thesis using assms(2) by (simp add: js_min_def rankIndex_def of_nat_diff)
  next
    case 2
    have i: "of_int \<lfloor>a\<rfloor> = a" using 2(2) by (rule thresholdIdx_integral)
    have f0: "0 \<le> \<lfloor>a\<rfloor>" using 2(1) by simp
    have ra: "real (nat \<lfloor>a\<rfloor>) = a" using f0 i by simp
    have n1: "real (n - 1) = real n - 1" using assms(2) by (simp add: of_nat_diff)
    show ?thesis
    proof (cases "real n - 1 < a")
      case True
      then have "real (n - 1) < real (nat \<lfloor>a\<rfloor>)" using n1 ra by linarith
      then have "n - 1 < nat \<lfloor>a\<rfloor>" by (simp only: of_nat_less_iff)
      then have "rankIndex p n = n - 1" using 2(2) by (simp add: rankIndex_def)
      then show ?thesis using True 2(2) n1 by (simp add: js_min_def)
    next
      case False
      then have "real (nat \<lfloor>a\<rfloor>) \<le> real (n - 1)" using n1 ra by linarith
      then have "nat \<lfloor>a\<rfloor> \<le> n - 1" by (simp only: of_nat_le_iff)
      then have "rankIndex p n = nat \<lfloor>a\<rfloor>" using 2(2) by (simp add: rankIndex_def)
      then show ?thesis using False 2(2) ra by (simp add: js_min_def)
    qed
  qed
qed

lemma rd_num_nat: "j < length xs \<Longrightarrow> rd_num xs (Fin (real j)) = xs ! j"
  by (simp add: rd_def)

lemma thresholdOf_nearestRank:
  assumes "js_le (Fin 0) p" "vs \<noteq> []"
  shows "thresholdOf p vs = nearestRank p vs"
proof -
  have n: "0 < length vs" using assms(2) by simp
  show ?thesis
    using clamp_rankIndex [OF assms(1) n] rankIndex_less [OF n, of p]
    by (simp add: thresholdOf_def nearestRank_def Let_def length_js_sort rd_def)
qed

lemma rankIndex_mono:
  assumes "js_le (Fin 0) p" "js_le p q" "0 < n"
  shows "rankIndex p n \<le> rankIndex q n"
proof -
  have "js_le (Fin 0) (thresholdIdx p n)" using assms(1,3) by (rule thresholdIdx_nonneg)
  moreover have "js_le (thresholdIdx p n) (thresholdIdx q n)" using assms by (rule thresholdIdx_mono)
  ultimately show ?thesis
  proof (cases "thresholdIdx p n"; cases "thresholdIdx q n")
    fix a b assume "thresholdIdx p n = Fin a" "thresholdIdx q n = Fin b"
      and "js_le (thresholdIdx p n) (thresholdIdx q n)"
    then have "nat \<lfloor>a\<rfloor> \<le> nat \<lfloor>b\<rfloor>" by (simp add: nat_mono floor_mono)
    then show ?thesis
      using \<open>thresholdIdx p n = Fin a\<close> \<open>thresholdIdx q n = Fin b\<close>
      by (simp add: rankIndex_def min_le_iff_disj)
  qed (simp_all add: rankIndex_def)
qed

subsection \<open>The sorted values\<close>

lemma validDiffsOf_iff:
  "v \<in> set (validDiffsOf dvals) \<longleftrightarrow> v \<in> set dvals \<and> isFinite v \<and> js_gt v (Fin 0)"
  by (auto simp: validDiffsOf_def)


lemma js_sort_nth_mono:
  assumes "i \<le> j" "j < length vs" "\<forall>v\<in>set vs. isFinite v"
  shows "js_le (js_sort vs ! i) (js_sort vs ! j)"
proof -
  let ?S = "js_sort vs"
  have j: "j < length (map num_val ?S)" using assms(2) by (simp add: length_js_sort)
  from sorted_nth_mono [OF sorted_js_sort assms(1) j]
  have le: "num_val (?S ! i) \<le> num_val (?S ! j)"
    using assms(1,2) by (simp add: length_js_sort)
  have "?S ! i \<in> set ?S" "?S ! j \<in> set ?S"
    using assms(1,2) by (simp_all add: length_js_sort)
  then have "isFinite (?S ! i)" "isFinite (?S ! j)"
    using assms(3) by (simp_all add: set_js_sort)
  then show ?thesis using le by (cases "?S ! i"; cases "?S ! j") simp_all
qed



lemma validDifferencesOf_eq: "validDifferencesOf dvals = filter isFinite dvals"
proof -
  have "(\<lambda>d. \<not> isNaN d \<and> isFinite d) = isFinite"
  proof
    fix d show "(\<not> isNaN d \<and> isFinite d) = isFinite d" by (cases d) simp_all
  qed
  then show ?thesis by (simp add: validDifferencesOf_def)
qed

text \<open>
  C5, as the code has it: for a percentile \<open>p\<close> from 0, \<^verbatim>\<open>updateHighlighting\<close>
  keeps the strictly positive finite values of the difference buffer, changes nothing
  when there is none, and otherwise highlights with the element of their ascending sort
  at the index \<^verbatim>\<open>Math.floor((p / 100) * n)\<close> clamped to \<open>n - 1\<close>. The variant
  \<^verbatim>\<open>updatePercentileHighlighting\<close> does the same with the finite values, zeros
  included.
\<close>

theorem percentile_threshold:
  assumes "differenceData app = Some dvals" "points app"
    and "currentPercentile app = Fin (of_int p)" "0 \<le> p" "p \<le> 100"
  shows "highlightThreshold app
           = (if validDiffsOf dvals = [] then None
              else Some (nearestRank (Fin (of_int p)) (validDiffsOf dvals)))
       \<and> updateHighlighting app
           = (case highlightThreshold app of
                None \<Rightarrow> (app, None)
              | Some t \<Rightarrow> updateIntensityOverlay t dvals (updatePointCloud t app))
       \<and> percentileThreshold app
           = (if validDifferencesOf dvals = [] then None
              else Some (nearestRank (Fin (of_int p)) (validDifferencesOf dvals)))
       \<and> updatePercentileHighlighting app
           = (case percentileThreshold app of
                None \<Rightarrow> app
              | Some t \<Rightarrow> updateIntensityHighlighting t dvals
                            (updatePointCloudHighlighting t dvals app))
       \<and> validDiffsOf dvals = filter (\<lambda>d. isFinite d \<and> js_gt d (Fin 0)) dvals
       \<and> validDifferencesOf dvals = filter isFinite dvals
       \<and> (\<forall>vs. sorted (map num_val (js_sort vs)) \<and> mset (js_sort vs) = mset vs
               \<and> nearestRank (Fin (of_int p)) vs = js_sort vs ! rankIndex (Fin (of_int p)) (length vs))"
proof -
  have p: "js_le (Fin 0) (Fin (of_int p))" using assms(4) by simp
  have 1: "highlightThreshold app
           = (if validDiffsOf dvals = [] then None
              else Some (nearestRank (Fin (of_int p)) (validDiffsOf dvals)))"
    using assms(1-3) by (simp add: highlightThreshold_def thresholdOf_nearestRank [OF p])
  have 2: "updateHighlighting app
           = (case highlightThreshold app of
                None \<Rightarrow> (app, None)
              | Some t \<Rightarrow> updateIntensityOverlay t dvals (updatePointCloud t app))"
    using assms(1,2) by (simp add: updateHighlighting_def highlightThreshold_def Let_def)
  have 3: "percentileThreshold app
           = (if validDifferencesOf dvals = [] then None
              else Some (nearestRank (Fin (of_int p)) (validDifferencesOf dvals)))"
    using assms(1-3) by (simp add: percentileThreshold_def thresholdOf_nearestRank [OF p])
  have 4: "updatePercentileHighlighting app
           = (case percentileThreshold app of
                None \<Rightarrow> app
              | Some t \<Rightarrow> updateIntensityHighlighting t dvals
                            (updatePointCloudHighlighting t dvals app))"
    using assms(1,2)
    by (simp add: updatePercentileHighlighting_def percentileThreshold_def Let_def)
  show ?thesis
    by (intro conjI allI 1 2 3 4 validDifferencesOf_eq sorted_js_sort mset_js_sort)
       (simp_all add: validDiffsOf_def nearestRank_def)
qed

theorem percentile_threshold_witness:
  "highlightThreshold (sampleApp [Fin 0, Fin 3, NaN, Fin 1] (Fin (of_int 95)))
     = Some (nearestRank (Fin (of_int 95)) (validDiffsOf [Fin 0, Fin 3, NaN, Fin 1]))
   \<and> validDiffsOf [Fin 0, Fin 3, NaN, Fin 1] = [Fin 3, Fin 1]"
proof -
  let ?d = "[Fin 0, Fin 3, NaN, Fin 1]"
  let ?app = "sampleApp ?d (Fin (of_int 95))"
  have h: "differenceData ?app = Some ?d" "points ?app"
    "currentPercentile ?app = Fin (of_int 95)" "(0::int) \<le> 95" "(95::int) \<le> 100"
    by (simp_all add: sampleApp_def)
  have v: "validDiffsOf ?d = [Fin 3, Fin 1]" by (simp add: validDiffsOf_def js_gt_def)
  then have ne: "validDiffsOf ?d \<noteq> []" by simp
  from percentile_threshold [OF h, THEN conjunct1] ne v show ?thesis by (simp only: if_False simp_thms)
qed

text \<open>
  The index is the one the code computes in floating point: for the percentile 29 and
  100 values it is 28, one below \<open>\<lfloor>29 * 100 / 100\<rfloor>\<close>.
\<close>

lemma thresholdIdx_29_of_100: "thresholdIdx (Fin 29) 100 = Fin 28"
  by code_simp

lemma fl64_half: "fl64 (1 / 2) = Fin (1 / 2)"
  by code_simp

lemma fl64_half_mega: "fl64 524288 = Fin 524288"
  by code_simp

lemma thresholdIdx_half: "thresholdIdx (Fin 50) 1048576 = Fin 524288"
  by (simp add: thresholdIdx_def fl64_half fl64_half_mega)

lemma thresholdOf_single: "thresholdOf (Fin 50) [Fin 5] = Fin 5"
  by code_simp

text \<open>
  C5 as stated (zeros are excluded from the order statistic) fails on the variant: on a
  difference buffer of 1048575 zeros and one 5, at the percentile 50, its threshold is
  0, where \<^verbatim>\<open>updateHighlighting\<close> computes 5.
\<close>

theorem variant_threshold_zero:
  "percentileThreshold (sampleApp (replicate 1048575 (Fin 0) @ [Fin 5]) (Fin 50)) = Some (Fin 0)
   \<and> highlightThreshold (sampleApp (replicate 1048575 (Fin 0) @ [Fin 5]) (Fin 50)) = Some (Fin 5)"
proof -
  let ?D = "replicate 1048575 (Fin 0) @ [Fin 5]"
  have p: "js_le (Fin 0) (Fin 50)" by simp
  have ne: "?D \<noteq> []" by simp
  have len: "length ?D = 1048576" by simp
  have vd: "validDifferencesOf ?D = ?D" by (simp add: validDifferencesOf_eq)
  have "sorted (map num_val ?D)" by (simp add: sorted_append)
  then have so: "js_sort ?D = ?D" unfolding js_sort_def by (rule sort_key_id_if_sorted)
  have ri: "rankIndex (Fin 50) 1048576 = 524288"
    by (simp add: rankIndex_def thresholdIdx_half)
  have "?D ! 524288 = Fin 0" by (simp add: nth_append)
  then have t: "thresholdOf (Fin 50) ?D = Fin 0"
    by (simp only: thresholdOf_nearestRank [OF p ne] nearestRank_def so len ri)
  have pv: "validDiffsOf ?D = [Fin 5]" by (simp add: validDiffsOf_def js_gt_def)
  show ?thesis
    by (simp add: percentileThreshold_def highlightThreshold_def sampleApp_def vd pv t
        thresholdOf_single del: replicate_append_same)
qed

lemma thresholdOf_mono:
  fixes p1 p2 :: real
  assumes "validDiffsOf dvals \<noteq> []" "0 \<le> p1" "p1 \<le> p2"
  shows "js_le (thresholdOf (Fin p1) (validDiffsOf dvals))
               (thresholdOf (Fin p2) (validDiffsOf dvals))"
proof -
  let ?vs = "validDiffsOf dvals"
  have n: "0 < length ?vs" using assms(1) by simp
  have a: "js_le (Fin 0) (Fin p1)" "js_le (Fin 0) (Fin p2)" "js_le (Fin p1) (Fin p2)"
    using assms(2,3) by simp_all
  have m: "rankIndex (Fin p1) (length ?vs) \<le> rankIndex (Fin p2) (length ?vs)"
    using a(1,3) n by (rule rankIndex_mono)
  have f: "\<forall>v\<in>set ?vs. isFinite v" by (simp add: validDiffsOf_iff)
  show ?thesis
    using js_sort_nth_mono [OF m rankIndex_less [OF n] f]
    by (simp add: thresholdOf_nearestRank [OF a(1) assms(1)]
        thresholdOf_nearestRank [OF a(2) assms(1)] nearestRank_def)
qed

text \<open>
  C6: for a difference buffer with a strictly positive finite value and percentiles
  \<open>0 \<le> p1 \<le> p2\<close>, \<^verbatim>\<open>updateHighlighting\<close> computes a threshold for each, and
  the threshold for \<open>p1\<close> is at most the threshold for \<open>p2\<close>.
\<close>

theorem percentile_monotone:
  fixes p1 p2 :: real
  assumes "differenceData app = Some dvals" "points app" "validDiffsOf dvals \<noteq> []"
    and "0 \<le> p1" "p1 \<le> p2"
  shows "\<exists>t1 t2. highlightThreshold (app\<lparr>currentPercentile := Fin p1\<rparr>) = Some t1
           \<and> highlightThreshold (app\<lparr>currentPercentile := Fin p2\<rparr>) = Some t2
           \<and> js_le t1 t2"
  using assms(1-3) thresholdOf_mono [OF assms(3-5)] by (simp add: highlightThreshold_def)

theorem percentile_monotone_witness:
  "\<exists>t1 t2.
     highlightThreshold (sampleApp [Fin 0, Fin 3, NaN, Fin 1] (Fin 95)
                           \<lparr>currentPercentile := Fin 10\<rparr>) = Some t1
   \<and> highlightThreshold (sampleApp [Fin 0, Fin 3, NaN, Fin 1] (Fin 95)
                           \<lparr>currentPercentile := Fin 90\<rparr>) = Some t2
   \<and> js_le t1 t2"
proof -
  let ?d = "[Fin 0, Fin 3, NaN, Fin 1]"
  have h: "differenceData (sampleApp ?d (Fin 95)) = Some ?d" "points (sampleApp ?d (Fin 95))"
    "validDiffsOf ?d \<noteq> []" "(0::real) \<le> 10" "(10::real) \<le> 90"
    by (simp_all add: sampleApp_def validDiffsOf_def js_gt_def)
  show ?thesis by (rule percentile_monotone [OF h])
qed






end
